theory Spec2Isabelle
  imports Main "HOL-Library.Sublist"
begin

section \<open>The terminal widget's escape-code handler (src/UI/Widgets/Terminal.cpp)\<close>

text \<open>
  A shallow embedding of \<^verbatim>\<open>AnsiEscapeCodeHandler::parseText\<close>, \<^verbatim>\<open>ansiColor\<close> and of
  the erase-line cursor commands of Terminal.cpp.

  Modelling conventions.
  \<^item> A \<^verbatim>\<open>QString\<close> is a \<^typ>\<open>string\<close>: a list of 8-bit characters (the Latin-1 range of
    \<^verbatim>\<open>QChar\<close>). In that range \<^verbatim>\<open>QChar::isDigit\<close> holds of \<^verbatim>\<open>0\<close>..\<^verbatim>\<open>9\<close> only and
    \<^verbatim>\<open>toLatin1\<close> is the identity.
  \<^item> \<^verbatim>\<open>uint\<close> values are natural numbers; every subtraction of the source is guarded by
    a comparison, and the one product that can wrap is reduced modulo \<open>2 ^ 32\<close>.
  \<^item> A \<^verbatim>\<open>QTextCharFormat\<close> is the record of the three properties the handler writes:
    foreground brush, background brush (\<open>None\<close>: no brush set) and bold weight.
  \<^item> The handler's calls into the \<^verbatim>\<open>QPlainTextEdit\<close> it points to are returned as a list
    of widget commands, in call order; what a command does to the document is a separate
    function on documents.
  \<^item> An out-of-range \<^verbatim>\<open>QList::at\<close> is the error value \<open>IndexOutOfRange\<close>.
\<close>

subsection \<open>Characters and strings\<close>

definition ESC :: char where
  "ESC = CHR 0x1B"

definition BEL :: char where
  "BEL = CHR 0x07"

definition backslash :: char where
  "backslash = CHR 0x5C"

text \<open>\<^verbatim>\<open>const QString escape = "\x1b["\<close> and the other constants of parseText.\<close>

definition escape :: string where
  "escape = [ESC, CHR ''['']"

definition semicolon :: char where
  "semicolon = CHR '';''"

definition colorTerminator :: char where
  "colorTerminator = CHR ''m''"

definition eraseToEol :: char where
  "eraseToEol = CHR ''K''"

definition isDigit :: "char \<Rightarrow> bool" where
  "isDigit c = (48 \<le> (of_char c :: nat) \<and> (of_char c :: nat) \<le> 57)"

text \<open>
  \<^verbatim>\<open>QString::toUpper\<close>, on the ASCII letters: a letter \<^verbatim>\<open>a\<close>..\<^verbatim>\<open>z\<close> (codes 97..122)
  loses 32, which is bit 5 of its code. The handler only searches the upper-cased text
  for \<^verbatim>\<open>2K\<close> and \<^verbatim>\<open>2J\<close>, and no other character's upper case is \<^verbatim>\<open>2\<close>, \<^verbatim>\<open>K\<close> or
  \<^verbatim>\<open>J\<close>.
\<close>

definition toUpperChar :: "char \<Rightarrow> char" where
  "toUpperChar c =
     (if 97 \<le> (of_char c :: nat) \<and> (of_char c :: nat) \<le> 122
      then (case c of Char b0 b1 b2 b3 b4 b5 b6 b7 \<Rightarrow> Char b0 b1 b2 b3 b4 False b6 b7)
      else c)"

definition toUpper :: "string \<Rightarrow> string" where
  "toUpper s = map toUpperChar s"

text \<open>\<^verbatim>\<open>s.startsWith(p)\<close>.\<close>

definition startsWith :: "string \<Rightarrow> string \<Rightarrow> bool" where
  "startsWith s p = (take (length p) s = p)"

text \<open>\<^verbatim>\<open>s.indexOf(c)\<close> and \<^verbatim>\<open>s.indexOf(t)\<close>; \<open>None\<close> is the result \<open>-1\<close>.\<close>

fun indexOfChar :: "char \<Rightarrow> string \<Rightarrow> nat option" where
  "indexOfChar c [] = None"
| "indexOfChar c (x # xs) =
     (if x = c then Some 0 else map_option Suc (indexOfChar c xs))"

fun indexOf :: "string \<Rightarrow> string \<Rightarrow> nat option" where
  "indexOf [] t = (if t = [] then Some 0 else None)"
| "indexOf (x # xs) t =
     (if startsWith (x # xs) t then Some 0 else map_option Suc (indexOf xs t))"

definition contains :: "string \<Rightarrow> string \<Rightarrow> bool" where
  "contains s t = (indexOf s t \<noteq> None)"

text \<open>
  \<^verbatim>\<open>QString::toUInt\<close> and \<^verbatim>\<open>QString::toInt\<close> on the digit strings the parameter scanner
  collects: the decimal value, or 0 when the value does not fit the 32-bit type.
\<close>

definition digitsVal :: "string \<Rightarrow> nat" where
  "digitsVal s = foldl (\<lambda>a c. 10 * a + ((of_char c :: nat) - 48)) 0 s"

definition toUInt :: "string \<Rightarrow> nat" where
  "toUInt s = (if digitsVal s < 2 ^ 32 then digitsVal s else 0)"

definition toInt :: "string \<Rightarrow> int" where
  "toInt s = (if digitsVal s < 2 ^ 31 then int (digitsVal s) else 0)"

subsection \<open>Colours and character formats\<close>

datatype QColor = InvalidColor | Rgb int int int

text \<open>\<^verbatim>\<open>QColor(r, g, b)\<close>: a channel outside 0..255 gives the invalid colour.\<close>

definition mkColor :: "int \<Rightarrow> int \<Rightarrow> int \<Rightarrow> QColor" where
  "mkColor r g b =
     (if 0 \<le> r \<and> r \<le> 255 \<and> 0 \<le> g \<and> g \<le> 255 \<and> 0 \<le> b \<and> b \<le> 255
      then Rgb r g b else InvalidColor)"

text \<open>\<^verbatim>\<open>static QColor ansiColor(uint code)\<close>; the bit tests of \<^verbatim>\<open>code & 1\<close>,
  \<^verbatim>\<open>code & 2\<close>, \<^verbatim>\<open>code & 4\<close> read bits 0, 1 and 2.\<close>

definition ansiColor :: "nat \<Rightarrow> QColor" where
  "ansiColor code =
     (if \<not> code < 8 then InvalidColor
      else mkColor (if bit code 0 then 170 else 0)
                   (if bit code 1 then 170 else 0)
                   (if bit code 2 then 170 else 0))"

text \<open>
  Modelled from the spec: \<^verbatim>\<open>QColor::lighter\<close> is a function of the Qt library, which is
  not part of the repository. The spec gives its effect on the palette colours: each
  channel scaled by the factor (150 percent is 1.5) and clamped to 255.
\<close>

definition lighter :: "int \<Rightarrow> QColor \<Rightarrow> QColor" where
  "lighter factor c =
     (case c of
        InvalidColor \<Rightarrow> InvalidColor
      | Rgb r g b \<Rightarrow>
          Rgb (min 255 (r * factor div 100)) (min 255 (g * factor div 100))
              (min 255 (b * factor div 100)))"

record QTextCharFormat =
  foreground :: "QColor option"
  background :: "QColor option"
  bold :: bool

record FormattedText =
  ft_text :: string
  ft_format :: QTextCharFormat

definition FT :: "string \<Rightarrow> QTextCharFormat \<Rightarrow> FormattedText" where
  "FT s f = \<lparr>ft_text = s, ft_format = f\<rparr>"

subsection \<open>The handler's state\<close>

record AnsiEscapeCodeHandler =
  m_pendingText :: string
  m_previousFormat :: QTextCharFormat
  m_previousFormatClosed :: bool
  m_waitingForTerminator :: bool
  m_alternateTerminator :: string

definition endFormatScope :: "AnsiEscapeCodeHandler \<Rightarrow> AnsiEscapeCodeHandler" where
  "endFormatScope h = h\<lparr>m_previousFormatClosed := True\<rparr>"

definition setFormatScope ::
  "QTextCharFormat \<Rightarrow> AnsiEscapeCodeHandler \<Rightarrow> AnsiEscapeCodeHandler" where
  "setFormatScope charFormat h =
     h\<lparr>m_previousFormat := charFormat, m_previousFormatClosed := False\<rparr>"

datatype error = IndexOutOfRange

subsection \<open>The 256-colour palette of the \<^verbatim>\<open>38;5;n\<close> and \<^verbatim>\<open>48;5;n\<close> codes\<close>

text \<open>
  The colour computed in \<^verbatim>\<open>case 5\<close> from \<^verbatim>\<open>uint index\<close>. The grey level is
  \<^verbatim>\<open>int((index - 232) * 11)\<close>: an unsigned 32-bit product converted to \<^verbatim>\<open>int\<close>.
\<close>

definition uintToInt :: "nat \<Rightarrow> int" where
  "uintToInt n = (if n mod 2 ^ 32 < 2 ^ 31 then int (n mod 2 ^ 32)
                  else int (n mod 2 ^ 32) - 2 ^ 32)"

definition color256 :: "nat \<Rightarrow> QColor" where
  "color256 index =
     (if index < 8 then ansiColor index
      else if index < 16 then lighter 150 (ansiColor (index - 8))
      else if index < 232 then
        (let o' = index - 16
         in mkColor (int ((o' div 36) * 51)) (int (((o' div 6) mod 6) * 51))
                    (int ((o' mod 6) * 51)))
      else (let grey = uintToInt ((index - 232) * 11) in mkColor grey grey grey))"

subsection \<open>The loop over the numeric parameters of an \<^verbatim>\<open>m\<close> sequence\<close>

text \<open>
  \<^verbatim>\<open>for (int i = 0; i < numbers.size(); ++i)\<close>. The reads \<^verbatim>\<open>numbers.at(i)\<close> follow the
  loop condition or the \<^verbatim>\<open>++i >= numbers.size()\<close> test, and the three reads of
  \<^verbatim>\<open>case 2\<close> are inside \<^verbatim>\<open>if ((i + 3) < numbers.size())\<close>. The read
  \<^verbatim>\<open>numbers.at(i + 1)\<close> of \<^verbatim>\<open>case 5\<close> has no test before it.
\<close>

function sgrLoop ::
  "QTextCharFormat \<Rightarrow> string list \<Rightarrow> nat \<Rightarrow> AnsiEscapeCodeHandler \<times> QTextCharFormat
     \<Rightarrow> error + (AnsiEscapeCodeHandler \<times> QTextCharFormat)" where
  "sgrLoop base numbers i (h, charFormat) =
     (if \<not> i < length numbers then Inr (h, charFormat)
      else
        (let code = toUInt (numbers ! i) in
         if 30 \<le> code \<and> code \<le> 37 then
           (let cf = charFormat\<lparr>foreground := Some (ansiColor (code - 30))\<rparr>
            in sgrLoop base numbers (i + 1) (setFormatScope cf h, cf))
         else if 40 \<le> code \<and> code \<le> 47 then
           (let cf = charFormat\<lparr>background := Some (ansiColor (code - 40))\<rparr>
            in sgrLoop base numbers (i + 1) (setFormatScope cf h, cf))
         else if code = 0 then
           sgrLoop base numbers (i + 1) (endFormatScope h, base)
         else if code = 1 then
           (let cf = charFormat\<lparr>bold := True\<rparr>
            in sgrLoop base numbers (i + 1) (setFormatScope cf h, cf))
         else if code = 39 then
           (let cf = charFormat\<lparr>foreground := foreground base\<rparr>
            in sgrLoop base numbers (i + 1) (setFormatScope cf h, cf))
         else if code = 49 then
           (let cf = charFormat\<lparr>background := background base\<rparr>
            in sgrLoop base numbers (i + 1) (setFormatScope cf h, cf))
         else if code = 38 \<or> code = 48 then
           (let i1 = i + 1 in
            if i1 \<ge> length numbers then sgrLoop base numbers (i1 + 1) (h, charFormat)
            else if toInt (numbers ! i1) = 2 then
              (if i1 + 3 < length numbers then
                 (let c = mkColor (toInt (numbers ! (i1 + 1))) (toInt (numbers ! (i1 + 2)))
                                  (toInt (numbers ! (i1 + 3)));
                      cf = (if code = 38 then charFormat\<lparr>foreground := Some c\<rparr>
                            else charFormat\<lparr>background := Some c\<rparr>)
                  in sgrLoop base numbers (i1 + 3 + 1) (setFormatScope cf h, cf))
               else sgrLoop base numbers (i1 + 3 + 1) (h, charFormat))
            else if toInt (numbers ! i1) = 5 then
              (if \<not> i1 + 1 < length numbers then Inl IndexOutOfRange
               else
                 (let color = color256 (toUInt (numbers ! (i1 + 1)));
                      cf = (if code = 38 then charFormat\<lparr>foreground := Some color\<rparr>
                            else charFormat\<lparr>background := Some color\<rparr>)
                  in sgrLoop base numbers (i1 + 1 + 1) (setFormatScope cf h, cf)))
            else sgrLoop base numbers (i1 + 1) (h, charFormat))
         else sgrLoop base numbers (i + 1) (h, charFormat)))"
  by pat_completeness auto
termination
  by (relation "measure (\<lambda>(base, numbers, i, p). length numbers - i)") auto

declare sgrLoop.simps [simp del]

text \<open>The code after the terminating \<^verbatim>\<open>m\<close>: an empty parameter list resets the format,
  then the loop runs.\<close>

definition applySgr ::
  "QTextCharFormat \<Rightarrow> string list \<Rightarrow> AnsiEscapeCodeHandler \<times> QTextCharFormat
     \<Rightarrow> error + (AnsiEscapeCodeHandler \<times> QTextCharFormat)" where
  "applySgr base numbers p =
     sgrLoop base numbers 0
       (if numbers = [] then (endFormatScope (fst p), base) else p)"

subsection \<open>The scanner of the numeric parameters\<close>

text \<open>
  The loop \<^verbatim>\<open>while (!strippedText.isEmpty())\<close> that collects \<^verbatim>\<open>strNumber\<close> and
  \<^verbatim>\<open>numbers\<close>. It returns the numbers, the characters it appended to
  \<^verbatim>\<open>m_pendingText\<close> and what is left of \<^verbatim>\<open>strippedText\<close>.
\<close>

fun scanNumbers ::
  "string \<Rightarrow> string list \<Rightarrow> string \<Rightarrow> string \<Rightarrow> string list \<times> string \<times> string" where
  "scanNumbers strNumber numbers pend [] = (numbers, pend, [])"
| "scanNumbers strNumber numbers pend (c # cs) =
     (if isDigit c then scanNumbers (strNumber @ [c]) numbers (pend @ [c]) cs
      else
        (let numbers' = (if strNumber \<noteq> [] then numbers @ [strNumber] else numbers)
         in if strNumber = [] \<or> c \<noteq> semicolon then (numbers', pend, c # cs)
            else scanNumbers [] numbers' (pend @ [c]) cs))"

subsection \<open>The search for a string terminator\<close>

text \<open>
  The search of the \<^verbatim>\<open>m_waitingForTerminator\<close> branch: first \<^verbatim>\<open>"\x1b\\"\<close>, then the
  alternate terminator when there is one. The result is
  \<^verbatim>\<open>terminatorPos + terminator.length()\<close>, the number of characters to remove.
\<close>

definition findTerminator :: "string \<Rightarrow> string \<Rightarrow> nat option" where
  "findTerminator alt s =
     (case indexOf s [ESC, backslash] of
        Some pos \<Rightarrow> Some (pos + 2)
      | None \<Rightarrow>
          (if alt \<noteq> [] then
             (case indexOf s alt of
                Some pos \<Rightarrow> Some (pos + length alt)
              | None \<Rightarrow> None)
           else None))"

subsection \<open>parseText\<close>

text \<open>
  The commands the handler sends to the text edit: the cursor commands of the
  \<^verbatim>\<open>2K\<close> branch, and \<^verbatim>\<open>textEdit->clear()\<close> of the \<^verbatim>\<open>2J\<close> branch.
\<close>

datatype widget_command = ClearCurrentLine | ClearScreen

type_synonym parse_result =
  "error + (FormattedText list \<times> AnsiEscapeCodeHandler \<times> widget_command list)"

text \<open>
  The two nested loops of parseText, as one function over the place reached:
  \<open>Outer\<close> is the head of \<^verbatim>\<open>while (!strippedText.isEmpty())\<close>, \<open>Scan\<close> the search
  for the escape character in its body, \<open>Inner\<close> the head of the loop
  \<^verbatim>\<open>while (!strippedText.isEmpty() && escape.at(0) == strippedText.at(0))\<close>.
  A \<^verbatim>\<open>break\<close> of the inner loop goes to \<open>Outer\<close>, a \<^verbatim>\<open>continue\<close> to \<open>Inner\<close>; a
  \<^verbatim>\<open>break\<close> of the outer loop and both \<^verbatim>\<open>return\<close> statements end the function.
  The arguments are \<^verbatim>\<open>input.format\<close>, the place, the handler's members,
  \<^verbatim>\<open>charFormat\<close>, \<^verbatim>\<open>outputData\<close> and \<^verbatim>\<open>strippedText\<close>. The result holds the
  runs returned, the handler's members and the commands sent to the text edit.

  The \<^verbatim>\<open>QTC_ASSERT\<close> tests are kept as the tests they are: a failed test leaves the outer
  loop. The read \<^verbatim>\<open>strippedText.at(1)\<close> of the \<^verbatim>\<open>switch\<close> is the second character
  \<open>c\<close> of the pattern \<open>e # c # rest\<close>; on a shorter text it would be out of range (no
  such text reaches it: a text of one escape character is a prefix of \<^verbatim>\<open>escape\<close>).
\<close>

datatype place = Outer | Scan | Inner

function run ::
  "QTextCharFormat \<Rightarrow> place \<Rightarrow> AnsiEscapeCodeHandler \<Rightarrow> QTextCharFormat
     \<Rightarrow> FormattedText list \<Rightarrow> string \<Rightarrow> parse_result" where
  "run base Outer h charFormat out s =
     (if s = [] then Inr (out, h, [])
      else if m_pendingText h \<noteq> [] then Inr (out, h, [])
      else if m_waitingForTerminator h then
        (case findTerminator (m_alternateTerminator h) s of
           None \<Rightarrow> Inr (out, h\<lparr>m_pendingText := s\<rparr>, [])
         | Some n \<Rightarrow>
             (let h' = h\<lparr>m_waitingForTerminator := False, m_alternateTerminator := []\<rparr>
              in if drop n s = [] then Inr (out, h', [])
                 else run base Scan h' charFormat out (drop n s)))
      else run base Scan h charFormat out s)"
| "run base Scan h charFormat out s =
     (case indexOfChar ESC s of
        None \<Rightarrow> Inr (out @ [FT s charFormat], h, [])
      | Some escapePos \<Rightarrow>
          (let out' = (if escapePos \<noteq> 0 then out @ [FT (take escapePos s) charFormat]
                       else out)
           in if drop escapePos s = [] \<or> hd (drop escapePos s) \<noteq> ESC
              then Inr (out', h, [])
              else run base Inner h charFormat out' (drop escapePos s)))"
| "run base Inner h charFormat out s =
     (if s = [] \<or> hd s \<noteq> ESC then run base Outer h charFormat out s
      else if startsWith escape s then
        run base Outer (h\<lparr>m_pendingText := m_pendingText h @ s\<rparr>) charFormat out []
      else if \<not> startsWith s escape then
        (case s of
           e # c # rest \<Rightarrow>
             (if c = backslash \<or> c = CHR ''N'' \<or> c = CHR ''O'' then
                run base Outer h charFormat out (drop 2 s)
              else if c = CHR '']'' then
                run base Outer
                  (h\<lparr>m_alternateTerminator := [BEL], m_waitingForTerminator := True\<rparr>)
                  charFormat out (drop 2 s)
              else if c = CHR ''P'' \<or> c = CHR ''X'' \<or> c = CHR ''^'' \<or> c = CHR ''_'' then
                run base Outer (h\<lparr>m_waitingForTerminator := True\<rparr>) charFormat out (drop 2 s)
              else
                run base Inner (h\<lparr>m_pendingText := []\<rparr>) charFormat
                  (out @ [FT (take 1 s) charFormat]) (drop 1 s))
         | _ \<Rightarrow> Inl IndexOutOfRange)
      else
        (let h1 = h\<lparr>m_pendingText := m_pendingText h @ take (length escape) s\<rparr>;
             s1 = drop (length escape) s;
             upperCase = toUpper s1
         in if contains upperCase ''2K'' then Inr (out, h1, [ClearCurrentLine])
            else if contains upperCase ''2J'' then Inr ([], h1, [ClearScreen])
            else if startsWith s1 [eraseToEol] then
              run base Inner (h1\<lparr>m_pendingText := []\<rparr>) charFormat out (drop 1 s1)
            else
              (case scanNumbers [] [] (m_pendingText h1) s1 of
                 (numbers, pend, s2) \<Rightarrow>
                   (if s2 = [] then
                      run base Outer (h1\<lparr>m_pendingText := pend\<rparr>) charFormat out []
                    else if \<not> startsWith s2 [colorTerminator] then
                      run base Outer (h1\<lparr>m_pendingText := []\<rparr>) charFormat out (drop 1 s2)
                    else
                      (case applySgr base numbers (h1\<lparr>m_pendingText := []\<rparr>, charFormat) of
                         Inl err \<Rightarrow> Inl err
                       | Inr (h3, cf) \<Rightarrow> run base Inner h3 cf out (drop 1 s2))))))"
  by pat_completeness auto

text \<open>
  The entry of parseText: the starting \<^verbatim>\<open>charFormat\<close>, and the text carried over from
  the previous call in front of the new text.
\<close>

definition parseText :: "AnsiEscapeCodeHandler \<Rightarrow> FormattedText \<Rightarrow> parse_result" where
  "parseText h input =
     (let charFormat = (if m_previousFormatClosed h then ft_format input
                        else m_previousFormat h);
          strippedText = (if m_pendingText h = [] then ft_text input
                          else m_pendingText h @ ft_text input);
          h0 = (if m_pendingText h = [] then h else h\<lparr>m_pendingText := []\<rparr>)
      in run (ft_format input) Outer h0 charFormat [] strippedText)"

text \<open>A handler as it is constructed: nothing pending, format scope closed.\<close>

definition initialHandler :: "QTextCharFormat \<Rightarrow> AnsiEscapeCodeHandler" where
  "initialHandler f =
     \<lparr>m_pendingText = [], m_previousFormat = f, m_previousFormatClosed = True,
      m_waitingForTerminator = False, m_alternateTerminator = []\<rparr>"

definition defaultFormat :: QTextCharFormat where
  "defaultFormat = \<lparr>foreground = None, background = None, bold = False\<rparr>"

subsection \<open>The text edit's document and the erase commands\<close>

text \<open>
  The document of the \<^verbatim>\<open>QPlainTextEdit\<close> is its plain text; the blocks are the lines
  between newline characters. The cursor commands are those of Qt's \<^verbatim>\<open>QTextCursor\<close>,
  for a widget that does not wrap lines (a line of the layout is a block).
\<close>

definition newline :: char where
  "newline = CHR 0x0A"

fun blocks :: "string \<Rightarrow> string list" where
  "blocks [] = [[]]"
| "blocks (c # cs) =
     (if c = newline then [] # blocks cs
      else (case blocks cs of b # bs \<Rightarrow> (c # b) # bs | [] \<Rightarrow> [[c]]))"

text \<open>\<^verbatim>\<open>QTextCursor::StartOfLine\<close> from position \<open>pos\<close>: after the last newline before it.\<close>

definition startOfLine :: "string \<Rightarrow> nat \<Rightarrow> nat" where
  "startOfLine doc pos =
     pos - length (takeWhile (\<lambda>c. c \<noteq> newline) (rev (take pos doc)))"

text \<open>
  The commands of the \<^verbatim>\<open>2K\<close> branch: the cursor goes to the end, to the start of
  that line, and selects up to the end; \<^verbatim>\<open>removeSelectedText\<close> removes the selection,
  which leaves the cursor at the start of the line; \<^verbatim>\<open>deletePreviousChar\<close> removes the
  character before the cursor when there is one.
\<close>

definition eraseLine :: "string \<Rightarrow> string" where
  "eraseLine doc =
     (let endPos = length doc;
          anchor = startOfLine doc endPos;
          doc1 = take anchor doc @ drop endPos doc
      in if anchor < 1 then doc1 else take (anchor - 1) doc1 @ drop anchor doc1)"

fun applyCommand :: "widget_command \<Rightarrow> string \<Rightarrow> string" where
  "applyCommand ClearCurrentLine doc = eraseLine doc"
| "applyCommand ClearScreen doc = []"

text \<open>\<^verbatim>\<open>Terminal::addText\<close> inserts at the end of the document.\<close>

definition insertAtEnd :: "string \<Rightarrow> string \<Rightarrow> string" where
  "insertAtEnd doc t = doc @ t"

subsection \<open>Terminal::vt100Processing\<close>

text \<open>The \<^verbatim>\<open>std::accumulate\<close> of vt100Processing: the texts of the runs, joined.\<close>

definition cleanLine :: "FormattedText list \<Rightarrow> string" where
  "cleanLine formattedText = foldl (\<lambda>t1 t2. t1 @ ft_text t2) [] formattedText"

subsection \<open>The statements of the specification, for comparison\<close>

text \<open>
  The low-intensity palette as the specification words it: for index \<open>i\<close> in 0..7, red is
  170 if bit 0 is set, green 170 if bit 1 is set, blue 170 if bit 2 is set, else 0.
\<close>

definition lowIntensity_spec :: "nat \<Rightarrow> int \<times> int \<times> int" where
  "lowIntensity_spec i =
     (if bit i 0 then 170 else 0, if bit i 1 then 170 else 0, if bit i 2 then 170 else 0)"

text \<open>
  The 256-colour mapping as the specification words it: 0..7 the low-intensity formula;
  8..15 the formula for \<open>index - 8\<close> with each channel scaled by 1.5 and clamped to 255;
  16..231 the cube with \<open>o = index - 16\<close>; 232..255 the grey \<open>(index - 232) * 11\<close>.
\<close>

definition palette256_spec :: "nat \<Rightarrow> QColor" where
  "palette256_spec index =
     (if index \<le> 7 then
        (case lowIntensity_spec index of (r, g, b) \<Rightarrow> Rgb r g b)
      else if index \<le> 15 then
        (case lowIntensity_spec (index - 8) of
           (r, g, b) \<Rightarrow> Rgb (min 255 (r * 3 div 2)) (min 255 (g * 3 div 2))
                            (min 255 (b * 3 div 2)))
      else if index \<le> 231 then
        (let o' = int index - 16
         in Rgb ((o' div 36) * 51) (((o' div 6) mod 6) * 51) ((o' mod 6) * 51))
      else (let grey = (int index - 232) * 11 in Rgb grey grey grey))"

subsection \<open>The scrollback document of the specification\<close>

text \<open>
  Modelled from the spec: the bounded scrollback document. Terminal.cpp hands the block
  limit to the text edit (\<^verbatim>\<open>Terminal::setMaximumBlockCount\<close> calls
  \<^verbatim>\<open>m_textEdit.setMaximumBlockCount\<close>); the code that stores blocks and removes the
  oldest ones is the Qt library's and is missing from the sources. The definitions follow
  section 4.2 of the specification and the comment of setMaximumBlockCount: text runs
  append to the last block and start a new block at each newline, ClearCurrentLine empties
  the last block, ClearScreen leaves one empty block, and after every apply the oldest
  blocks are removed while the limit is positive and exceeded.
\<close>

datatype Event = TextRun FormattedText | Command widget_command

type_synonym ScrollbackDocument = "FormattedText list list"

fun trimOldest :: "int \<Rightarrow> 'a list \<Rightarrow> 'a list" where
  "trimOldest maxBlockCount [] = []"
| "trimOldest maxBlockCount (b # bs) =
     (if maxBlockCount > 0 \<and> int (length (b # bs)) > maxBlockCount
      then trimOldest maxBlockCount bs else b # bs)"

definition appendToLast :: "FormattedText \<Rightarrow> ScrollbackDocument \<Rightarrow> ScrollbackDocument" where
  "appendToLast r doc =
     (if ft_text r = [] then (if doc = [] then [[]] else doc)
      else if doc = [] then [[r]]
      else butlast doc @ [last doc @ [r]])"

fun appendPieces ::
  "QTextCharFormat \<Rightarrow> string list \<Rightarrow> ScrollbackDocument \<Rightarrow> ScrollbackDocument" where
  "appendPieces f [] doc = doc"
| "appendPieces f (p # ps) doc =
     appendPieces f ps (appendToLast (FT p f) (doc @ [[]]))"

fun applyEvent :: "Event \<Rightarrow> ScrollbackDocument \<Rightarrow> ScrollbackDocument" where
  "applyEvent (TextRun r) doc =
     (case blocks (ft_text r) of
        [] \<Rightarrow> doc
      | p # ps \<Rightarrow> appendPieces (ft_format r) ps (appendToLast (FT p (ft_format r)) doc))"
| "applyEvent (Command ClearCurrentLine) doc = butlast doc @ [[]]"
| "applyEvent (Command ClearScreen) doc = [[]]"

definition applyEvents :: "Event list \<Rightarrow> ScrollbackDocument \<Rightarrow> ScrollbackDocument" where
  "applyEvents events doc = foldl (\<lambda>d e. applyEvent e d) doc events"

definition sb_apply :: "Event list \<Rightarrow> int \<Rightarrow> ScrollbackDocument \<Rightarrow> ScrollbackDocument" where
  "sb_apply events maxBlockCount doc = trimOldest maxBlockCount (applyEvents events doc)"

subsection \<open>Handlers used in the examples\<close>

text \<open>The handler after it has read \<^verbatim>\<open>ESC ]\<close>: it waits for a string terminator.\<close>

definition waitingHandler :: AnsiEscapeCodeHandler where
  "waitingHandler =
     (initialHandler defaultFormat)
       \<lparr>m_alternateTerminator := [BEL], m_waitingForTerminator := True\<rparr>"

subsection \<open>Notions used to state the claims on chunks and runs\<close>





text \<open>
  The runs \<open>out1\<close> returned by one call, followed by the result of the next call, the way
  a single call returns them: the runs are joined, except that the \<^verbatim>\<open>2J\<close> branch
  returns an empty vector whatever was collected before.
\<close>

definition prependRuns :: "FormattedText list \<Rightarrow> parse_result \<Rightarrow> parse_result" where
  "prependRuns out1 r =
     (case r of
        Inl err \<Rightarrow> Inl err
      | Inr (out2, h, w) \<Rightarrow> Inr (if w = [ClearScreen] then out2 else out1 @ out2, h, w))"

text \<open>
  The beginnings of a sequence \<^verbatim>\<open>ESC [\<close> with numeric parameters that the scanner reads
  to their end: \<^verbatim>\<open>ESC\<close> alone, or \<^verbatim>\<open>ESC [\<close> followed by digits and semicolons in which
  every semicolon follows a digit. \<open>paramText d\<close> reads the parameters, \<open>d\<close> telling
  whether the character before was a digit.
\<close>

fun paramText :: "bool \<Rightarrow> string \<Rightarrow> bool" where
  "paramText d [] = True"
| "paramText d (c # cs) =
     (if isDigit c then paramText True cs else c = semicolon \<and> d \<and> paramText False cs)"

definition partialSequence :: "string \<Rightarrow> bool" where
  "partialSequence q = (q = [ESC] \<or> (startsWith q escape \<and> paramText False (drop 2 q)))"

text \<open>
  The two erase markers do not occur in a text, in any letter case: the test of the
  branches \<^verbatim>\<open>2K\<close> and \<^verbatim>\<open>2J\<close>, negated.
\<close>

definition noMarker :: "string \<Rightarrow> bool" where
  "noMarker s = (\<not> contains (toUpper s) ''2K'' \<and> \<not> contains (toUpper s) ''2J'')"

text \<open>
  What follows the first \<^verbatim>\<open>ESC [\<close> of a text: the text that the first test for the
  erase markers searches, if the loop reaches this \<^verbatim>\<open>ESC [\<close>, and a text that holds what
  every later test searches.
\<close>

fun afterIntroducer :: "string \<Rightarrow> string" where
  "afterIntroducer [] = []"
| "afterIntroducer (x # xs) =
     (if startsWith (x # xs) escape then drop (length escape) (x # xs)
      else afterIntroducer xs)"

text \<open>
  A buffer \<open>s\<close> and a chunk \<open>c\<close> that arrives after it, for which no test of parseText on
  \<open>s\<close> depends on \<open>c\<close>: no erase marker follows the first \<^verbatim>\<open>ESC [\<close> of \<open>s @ c\<close>; and the
  search for a string terminator, which takes the terminator \<^verbatim>\<open>ESC\<close> backslash anywhere
  in the buffer before it looks for the bell, finds no bell in \<open>s\<close> or no \<^verbatim>\<open>ESC\<close>
  backslash in \<open>s @ c\<close>.
\<close>

definition splitSafe :: "string \<Rightarrow> string \<Rightarrow> bool" where
  "splitSafe s c =
     (noMarker (afterIntroducer (s @ c))
      \<and> (BEL \<notin> set s \<or> \<not> contains (s @ c) [ESC, backslash]))"

text \<open>
  The events of one call in the order in which they take effect: the handler sends its
  commands to the text edit while parseText runs, and \<^verbatim>\<open>Terminal::addText\<close> inserts the
  returned runs after parseText has returned.
\<close>

definition feedEvents ::
  "FormattedText list \<times> AnsiEscapeCodeHandler \<times> widget_command list \<Rightarrow> Event list" where
  "feedEvents r = (case r of (out, h, w) \<Rightarrow> map Command w @ map TextRun out)"

subsection \<open>The measure of the parser's loops\<close>

text \<open>
  What decreases along the loops of parseText: the length of \<^verbatim>\<open>strippedText\<close>, and for
  equal lengths the place, from the head of the outer loop to the search for the escape
  character to the inner loop standing at an escape character.
\<close>

definition runMeasure :: "place \<Rightarrow> string \<Rightarrow> nat" where
  "runMeasure pl s =
     (case pl of
        Outer \<Rightarrow> 4 * length s + 2
      | Scan \<Rightarrow> 4 * length s + 1
      | Inner \<Rightarrow> if s \<noteq> [] \<and> hd s = ESC then 4 * length s else 4 * length s + 3)"

section \<open>Termination of the parser\<close>

lemma scanNumbers_length:
  "scanNumbers a b p s = (n, p', s2) \<Longrightarrow> length s2 \<le> length s"
  by (induction a b p s rule: scanNumbers.induct) (auto simp: Let_def split: if_splits)

termination run
  apply (relation "measure (\<lambda>(base, pl, h, cf, out, s). runMeasure pl s)")
  unfolding runMeasure_def
  apply simp
  apply simp
  apply simp
  apply (auto split: if_splits)[1]
  apply (auto split: if_splits)[1]
  apply (auto split: if_splits simp: neq_Nil_conv)[1]
  apply (auto split: if_splits simp: neq_Nil_conv)[1]
  apply (auto split: if_splits simp: neq_Nil_conv)[1]
  apply (auto split: if_splits simp: neq_Nil_conv)[1]
  apply (auto split: if_splits simp: neq_Nil_conv)[1]
  apply (auto split: if_splits simp: startsWith_def escape_def neq_Nil_conv)[1]
  subgoal for base h cf out s
    by (cases s) (auto simp: startsWith_def escape_def)
  subgoal for base h cf out s x xa xb xba y xaa ya
    using scanNumbers_length[of "[]" "[]" "m_pendingText x" xa xba xaa ya]
    by (cases s; cases ya) (auto simp: startsWith_def escape_def split: if_splits)
  subgoal for base h cf out s x xa xb xba y xaa ya
    using scanNumbers_length[of "[]" "[]" "m_pendingText x" xa xba xaa ya]
    by (cases s; cases ya) (auto simp: startsWith_def escape_def split: if_splits)
  done

declare run.simps [simp del]

lemmas parse_defs = parseText_def initialHandler_def defaultFormat_def FT_def escape_def
  ESC_def BEL_def backslash_def semicolon_def colorTerminator_def eraseToEol_def isDigit_def
  toUpper_def toUpperChar_def startsWith_def contains_def digitsVal_def toUInt_def toInt_def
  mkColor_def ansiColor_def lighter_def endFormatScope_def setFormatScope_def uintToInt_def
  color256_def applySgr_def findTerminator_def run.simps sgrLoop.simps Let_def

section \<open>Properties of parseText and of the terminal\<close>

text \<open>
  C1. For every chunk and baseline style, parseText evaluates to a result and never fails,
  also for an SGR sequence whose parameter list ends right after the mode selector of an
  extended colour, such as \<^verbatim>\<open>ESC[38;5m\<close>: every read of the parameter list is in bounds.

  The function is total (its termination is proved above), but on \<^verbatim>\<open>ESC[38;5m\<close> the
  branch of mode 5 reads \<^verbatim>\<open>numbers.at(i + 1)\<close> one past the end of the list, where the
  branch of mode 2 tests \<^verbatim>\<open>(i + 3) < numbers.size()\<close> first: \<^verbatim>\<open>ESC[38;2m\<close> is dropped
  without a read out of range.
\<close>

theorem parseText_mode5_reads_past_end:
  "parseText (initialHandler defaultFormat) (FT (escape @ ''38;5m'') defaultFormat)
     = Inl IndexOutOfRange
   \<and> parseText (initialHandler defaultFormat) (FT (escape @ ''38;2m'') defaultFormat)
     = Inr ([], initialHandler defaultFormat, [])"
  by (simp add: parse_defs)

text \<open>Helper facts on the string functions.\<close>

lemma indexOfChar_None: "c \<notin> set s \<Longrightarrow> indexOfChar c s = None"
  by (induction s) auto

lemma indexOfChar_append:
  "c \<notin> set t \<Longrightarrow> indexOfChar c (t @ c # r) = Some (length t)"
  by (induction t) auto

text \<open>
  C3. A non-empty chunk without the escape character, fed to a handler whose pending text
  is empty and whose format scope is closed, gives exactly one run: the chunk, in the
  caller's format; joining the texts of the runs gives the chunk back.

  As stated this fails for a handler that waits for a string terminator: after
  \<^verbatim>\<open>ESC ]\<close> the pending text is empty and the format scope closed, and the chunk
  \<^verbatim>\<open>hello\<close> is kept as pending text, with no run returned.
\<close>

theorem plain_text_waiting_counterexample:
  "parseText (initialHandler defaultFormat) (FT [ESC, CHR '']''] defaultFormat)
     = Inr ([], waitingHandler, [])
   \<and> m_pendingText waitingHandler = [] \<and> m_previousFormatClosed waitingHandler
   \<and> ESC \<notin> set ''hello''
   \<and> parseText waitingHandler (FT ''hello'' defaultFormat)
     = Inr ([], waitingHandler\<lparr>m_pendingText := ''hello''\<rparr>, [])"
  by (simp add: parse_defs waitingHandler_def)

text \<open>
  C3, amended: the same, for a handler that moreover does not wait for a string
  terminator. The handler is left as it was.
\<close>

theorem plain_text_single_run:
  assumes "s \<noteq> []" and "ESC \<notin> set s"
    and "m_pendingText h = []" and "m_previousFormatClosed h"
    and "\<not> m_waitingForTerminator h"
  shows "parseText h (FT s base) = Inr ([FT s base], h, [])
         \<and> cleanLine [FT s base] = s"
  using assms
  by (simp add: parseText_def run.simps indexOfChar_None FT_def cleanLine_def)

theorem plain_text_single_run_witness:
  "''hello'' \<noteq> [] \<and> ESC \<notin> set ''hello''
   \<and> m_pendingText (initialHandler defaultFormat) = []
   \<and> m_previousFormatClosed (initialHandler defaultFormat)
   \<and> \<not> m_waitingForTerminator (initialHandler defaultFormat)
   \<and> parseText (initialHandler defaultFormat) (FT ''hello'' defaultFormat)
     = Inr ([FT ''hello'' defaultFormat], initialHandler defaultFormat, [])
   \<and> cleanLine [FT ''hello'' defaultFormat] = ''hello''"
  using plain_text_single_run [of "''hello''" "initialHandler defaultFormat" defaultFormat]
  by (simp add: initialHandler_def ESC_def)

text \<open>The palette computed by the code against the palette of the specification.\<close>

lemma ansiColor_spec:
  "i < 8 \<Longrightarrow> ansiColor i = (case lowIntensity_spec i of (r, g, b) \<Rightarrow> Rgb r g b)"
  by (simp add: ansiColor_def lowIntensity_spec_def mkColor_def)

lemma color256_low: "index < 8 \<Longrightarrow> color256 index = palette256_spec index"
  by (simp add: color256_def palette256_spec_def ansiColor_spec)

lemma color256_high:
  "8 \<le> index \<Longrightarrow> index < 16 \<Longrightarrow> color256 index = palette256_spec index"
  by (simp add: color256_def palette256_spec_def ansiColor_def lowIntensity_spec_def
      mkColor_def lighter_def)

lemma color256_cube:
  assumes "16 \<le> index" and "index < 232"
  shows "color256 index = palette256_spec index"
proof -
  define k where "k = index - 16"
  have k: "k < 216" "index = k + 16" using assms by (simp_all add: k_def)
  have a: "int k div 36 \<le> 5" using k(1) by linarith
  have b: "int k div 6 mod 6 \<le> 5" using pos_mod_bound [of 6 "int k div 6"] by linarith
  have c: "int k mod 6 \<le> 5" using pos_mod_bound [of 6 "int k"] by linarith
  have i: "int index - 16 = int k" using k(2) by simp
  have n: "\<not> index < 8" "\<not> index < 16" "\<not> index \<le> 7" "\<not> index \<le> 15" "index \<le> 231"
    using assms by simp_all
  have l: "color256 index =
      mkColor (int k div 36 * 51) (int k div 6 mod 6 * 51) (int k mod 6 * 51)"
    using assms(2) n
    by (simp add: color256_def Let_def k_def[symmetric] zdiv_int zmod_int)
  have r: "palette256_spec index =
      Rgb (int k div 36 * 51) (int k div 6 mod 6 * 51) (int k mod 6 * 51)"
    using n by (simp add: palette256_spec_def Let_def i)
  have m: "mkColor (int k div 36 * 51) (int k div 6 mod 6 * 51) (int k mod 6 * 51) =
      Rgb (int k div 36 * 51) (int k div 6 mod 6 * 51) (int k mod 6 * 51)"
    using a b c by (simp add: mkColor_def)
  show ?thesis unfolding l r m ..
qed

lemma color256_grey:
  assumes "232 \<le> index" and "index \<le> 255"
  shows "color256 index = palette256_spec index"
proof -
  define k where "k = index - 232"
  have k: "k \<le> 23" "index = k + 232" using assms by (simp_all add: k_def)
  have m: "k * 11 \<le> 253" using k(1) by simp
  have u: "uintToInt (k * 11) = int k * 11" using m by (simp add: uintToInt_def)
  have i: "int index - 232 = int k" using k(2) by simp
  show ?thesis
    using m assms
    by (simp add: color256_def palette256_spec_def mkColor_def Let_def i u k_def[symmetric])
qed

lemma color256_spec: "index \<le> 255 \<Longrightarrow> color256 index = palette256_spec index"
  using color256_low [of index] color256_high [of index] color256_cube [of index]
    color256_grey [of index]
  by linarith

text \<open>The low-intensity palette by its bits, and a plain text fed to a handler at rest.\<close>

lemma ansiColor_bits:
  "k < 8 \<Longrightarrow> ansiColor k = Rgb (if bit k 0 then 170 else 0) (if bit k 1 then 170 else 0)
       (if bit k 2 then 170 else 0)"
  by (simp add: ansiColor_def mkColor_def)

lemma plain_text_carried:
  "s \<noteq> [] \<Longrightarrow> ESC \<notin> set s \<Longrightarrow> m_pendingText h = [] \<Longrightarrow> \<not> m_waitingForTerminator h \<Longrightarrow>
   parseText h (FT s base) =
     Inr ([FT s (if m_previousFormatClosed h then base else m_previousFormat h)], h, [])"
  by (simp add: parseText_def run.simps indexOfChar_None FT_def)

text \<open>
  C6. For every 256-colour selection \<^verbatim>\<open>38;5;index\<close> or \<^verbatim>\<open>48;5;index\<close> with index in
  0..255, at any position \<open>i\<close> of the parameter list of an \<^verbatim>\<open>m\<close> sequence, the colour
  assigned is the one of the specification's piecewise mapping (\<open>palette256_spec\<close>): it
  is written to the foreground for 38 and to the background for 48, of the current format
  and of the format the handler keeps for the next call (\<^verbatim>\<open>m_previousFormat\<close>, with the
  scope open), and the loop goes on with the parameter after the index. So
  \<^verbatim>\<open>ESC[38;5;20mX\<close> gives the run \<^verbatim>\<open>X\<close> with the cube colour (0, 0, 204) of index 20, and
  \<^verbatim>\<open>ESC[1;48;5;196;38;5;20mX\<close> a bold run with both colours.
\<close>

theorem sgr_256_color_matches_spec:
  assumes "i + 2 < length numbers" and "toInt (numbers ! (i + 1)) = 5"
    and "toUInt (numbers ! (i + 2)) \<le> 255"
  shows "(toUInt (numbers ! i) = 38 \<longrightarrow>
            sgrLoop base numbers i (h, cf) =
              (let cf' = cf\<lparr>foreground := Some (palette256_spec (toUInt (numbers ! (i + 2))))\<rparr>
               in sgrLoop base numbers (i + 3)
                    (h\<lparr>m_previousFormat := cf', m_previousFormatClosed := False\<rparr>, cf')))
       \<and> (toUInt (numbers ! i) = 48 \<longrightarrow>
            sgrLoop base numbers i (h, cf) =
              (let cf' = cf\<lparr>background := Some (palette256_spec (toUInt (numbers ! (i + 2))))\<rparr>
               in sgrLoop base numbers (i + 3)
                    (h\<lparr>m_previousFormat := cf', m_previousFormatClosed := False\<rparr>, cf')))
       \<and> (length numbers = i + 3 \<longrightarrow> sgrLoop base numbers (i + 3) (h, cf) = Inr (h, cf))
       \<and> parseText (initialHandler base) (FT (escape @ ''38;5;20mX'') base) =
           Inr ([FT ''X'' (base\<lparr>foreground := Some (Rgb 0 0 204)\<rparr>)],
                (initialHandler base)\<lparr>m_previousFormat := base\<lparr>foreground := Some (Rgb 0 0 204)\<rparr>,
                                       m_previousFormatClosed := False\<rparr>, [])
       \<and> parseText (initialHandler base) (FT (escape @ ''1;48;5;196;38;5;20mX'') base) =
           Inr ([FT ''X'' (base\<lparr>foreground := Some (Rgb 0 0 204),
                                background := Some (Rgb 255 0 0), bold := True\<rparr>)],
                (initialHandler base)
                  \<lparr>m_previousFormat := base\<lparr>foreground := Some (Rgb 0 0 204),
                                            background := Some (Rgb 255 0 0), bold := True\<rparr>,
                   m_previousFormatClosed := False\<rparr>, [])"
proof -
  have c: "color256 (toUInt (numbers ! (i + 2))) = palette256_spec (toUInt (numbers ! (i + 2)))"
    using assms(3) by (rule color256_spec)
  have l: "i < length numbers" "i + 1 < length numbers" "\<not> length numbers \<le> i + 1"
    "Suc (Suc i) < length numbers" "Suc i < length numbers" "\<not> length numbers \<le> Suc i"
    using assms(1) by simp_all
  have t: "toInt (numbers ! Suc i) = 5" using assms(2) by simp
  have n: "i + 3 = Suc (Suc (Suc i))" by simp
  have a: "toUInt (numbers ! i) = 38 \<longrightarrow>
            sgrLoop base numbers i (h, cf) =
              (let cf' = cf\<lparr>foreground := Some (palette256_spec (toUInt (numbers ! (i + 2))))\<rparr>
               in sgrLoop base numbers (i + 3)
                    (h\<lparr>m_previousFormat := cf', m_previousFormatClosed := False\<rparr>, cf'))"
    using l t c by (subst sgrLoop.simps) (simp add: Let_def setFormatScope_def n)
  have b: "toUInt (numbers ! i) = 48 \<longrightarrow>
            sgrLoop base numbers i (h, cf) =
              (let cf' = cf\<lparr>background := Some (palette256_spec (toUInt (numbers ! (i + 2))))\<rparr>
               in sgrLoop base numbers (i + 3)
                    (h\<lparr>m_previousFormat := cf', m_previousFormatClosed := False\<rparr>, cf'))"
    using l t c by (subst sgrLoop.simps) (simp add: Let_def setFormatScope_def n)
  have d: "length numbers = i + 3 \<longrightarrow> sgrLoop base numbers (i + 3) (h, cf) = Inr (h, cf)"
    by (subst sgrLoop.simps) simp
  have e: "parseText (initialHandler base) (FT (escape @ ''38;5;20mX'') base) =
           Inr ([FT ''X'' (base\<lparr>foreground := Some (Rgb 0 0 204)\<rparr>)],
                (initialHandler base)\<lparr>m_previousFormat := base\<lparr>foreground := Some (Rgb 0 0 204)\<rparr>,
                                       m_previousFormatClosed := False\<rparr>, [])"
    by (simp add: parse_defs)
  have f: "parseText (initialHandler base) (FT (escape @ ''1;48;5;196;38;5;20mX'') base) =
           Inr ([FT ''X'' (base\<lparr>foreground := Some (Rgb 0 0 204),
                                background := Some (Rgb 255 0 0), bold := True\<rparr>)],
                (initialHandler base)
                  \<lparr>m_previousFormat := base\<lparr>foreground := Some (Rgb 0 0 204),
                                            background := Some (Rgb 255 0 0), bold := True\<rparr>,
                   m_previousFormatClosed := False\<rparr>, [])"
    by (simp add: parse_defs)
  from a b d e f show ?thesis by blast
qed

theorem sgr_256_color_matches_spec_witness:
  "1 + 2 < length [''1'', ''38'', ''5'', ''20''] \<and> toInt ([''1'', ''38'', ''5'', ''20''] ! (1 + 1)) = 5
   \<and> toUInt ([''1'', ''38'', ''5'', ''20''] ! (1 + 2)) \<le> 255
   \<and> toUInt ([''1'', ''38'', ''5'', ''20''] ! 1) = 38
   \<and> length [''1'', ''38'', ''5'', ''20''] = 1 + 3
   \<and> palette256_spec 20 = Rgb 0 0 204
   \<and> sgrLoop defaultFormat [''1'', ''38'', ''5'', ''20''] 1
        (initialHandler defaultFormat, defaultFormat\<lparr>bold := True\<rparr>) =
       Inr ((initialHandler defaultFormat)
              \<lparr>m_previousFormat := defaultFormat\<lparr>foreground := Some (Rgb 0 0 204), bold := True\<rparr>,
               m_previousFormatClosed := False\<rparr>,
            defaultFormat\<lparr>foreground := Some (Rgb 0 0 204), bold := True\<rparr>)"
proof -
  have t: "toUInt ''20'' = 20" "toUInt ''38'' = 38" "toInt ''5'' = 5"
    by (simp_all add: toUInt_def toInt_def digitsVal_def)
  have p: "palette256_spec 20 = Rgb 0 0 204" by (simp add: palette256_spec_def)
  have n: "[''1'', ''38'', ''5'', ''20''] ! (1 + 2) = ''20''" "[''1'', ''38'', ''5'', ''20''] ! (1 + 1) = ''5''"
    "[''1'', ''38'', ''5'', ''20''] ! 1 = ''38''"
    by simp_all
  show ?thesis
    using sgr_256_color_matches_spec [where numbers = "[''1'', ''38'', ''5'', ''20'']" and i = 1
        and base = defaultFormat and h = "initialHandler defaultFormat"
        and cf = "defaultFormat\<lparr>bold := True\<rparr>"]
      sgr_256_color_matches_spec [where numbers = "[''1'', ''38'', ''5'', ''20'']" and i = 1
        and base = defaultFormat
        and h = "(initialHandler defaultFormat)
              \<lparr>m_previousFormat := defaultFormat\<lparr>foreground := Some (Rgb 0 0 204), bold := True\<rparr>,
               m_previousFormatClosed := False\<rparr>"
        and cf = "defaultFormat\<lparr>foreground := Some (Rgb 0 0 204), bold := True\<rparr>"]
    by (simp add: t p n Let_def initialHandler_def defaultFormat_def)
qed

text \<open>
  C5. A parameter \<open>c\<close> in 30..37, at any position \<open>i\<close> of the parameter list of an
  \<^verbatim>\<open>m\<close> sequence, sets the foreground to the low-intensity colour of index \<open>c - 30\<close>
  (170 on the channels whose bit is set: bit 0 red, bit 1 green, bit 2 blue), in the
  current format and in the format the handler keeps for the next call
  (\<^verbatim>\<open>m_previousFormat\<close>, with the scope open), and the loop goes on with the next
  parameter; code 0 puts the caller's format back and closes the scope, as an \<^verbatim>\<open>m\<close>
  sequence without parameters does; past the last parameter the loop ends. A plain text
  fed next comes out in the kept format while the scope is open, and in the caller's
  format once it is closed. So \<^verbatim>\<open>ESC[31mRED\<close> then \<^verbatim>\<open>ESC[0mplain\<close>, fed as two chunks or
  as one, give the run \<^verbatim>\<open>RED\<close> with foreground (170, 0, 0) and the run \<^verbatim>\<open>plain\<close> in the
  caller's format, and \<^verbatim>\<open>ESC[1;31mA\<close> then \<^verbatim>\<open>ESC[mB\<close> a bold red \<^verbatim>\<open>A\<close> and a plain
  \<^verbatim>\<open>B\<close>.
\<close>

theorem sgr_foreground_and_reset:
  "(i < length numbers \<and> 30 \<le> toUInt (numbers ! i) \<and> toUInt (numbers ! i) \<le> 37 \<longrightarrow>
      sgrLoop base numbers i (h, cf) =
        (let k = toUInt (numbers ! i) - 30;
             cf' = cf\<lparr>foreground := Some (Rgb (if bit k 0 then 170 else 0)
                       (if bit k 1 then 170 else 0) (if bit k 2 then 170 else 0))\<rparr>
         in sgrLoop base numbers (i + 1)
              (h\<lparr>m_previousFormat := cf', m_previousFormatClosed := False\<rparr>, cf')))
   \<and> (i < length numbers \<and> toUInt (numbers ! i) = 0 \<longrightarrow>
      sgrLoop base numbers i (h, cf) =
        sgrLoop base numbers (i + 1) (h\<lparr>m_previousFormatClosed := True\<rparr>, base))
   \<and> (length numbers \<le> i \<longrightarrow> sgrLoop base numbers i (h, cf) = Inr (h, cf))
   \<and> applySgr base numbers (h, cf) =
       (if numbers = [] then Inr (h\<lparr>m_previousFormatClosed := True\<rparr>, base)
        else sgrLoop base numbers 0 (h, cf))
   \<and> (t \<noteq> [] \<and> ESC \<notin> set t \<and> m_pendingText h = [] \<and> \<not> m_waitingForTerminator h \<longrightarrow>
        parseText (h\<lparr>m_previousFormat := cf, m_previousFormatClosed := False\<rparr>) (FT t base)
          = Inr ([FT t cf], h\<lparr>m_previousFormat := cf, m_previousFormatClosed := False\<rparr>, [])
      \<and> parseText (h\<lparr>m_previousFormatClosed := True\<rparr>) (FT t base)
          = Inr ([FT t base], h\<lparr>m_previousFormatClosed := True\<rparr>, []))
   \<and> parseText (initialHandler base) (FT (escape @ ''31mRED'') base) =
       Inr ([FT ''RED'' (base\<lparr>foreground := Some (Rgb 170 0 0)\<rparr>)],
            (initialHandler base)\<lparr>m_previousFormat := base\<lparr>foreground := Some (Rgb 170 0 0)\<rparr>,
                                   m_previousFormatClosed := False\<rparr>, [])
   \<and> parseText ((initialHandler base)\<lparr>m_previousFormat := base\<lparr>foreground := Some (Rgb 170 0 0)\<rparr>,
                                       m_previousFormatClosed := False\<rparr>)
         (FT (escape @ ''0mplain'') base) =
       Inr ([FT ''plain'' base],
            (initialHandler base)\<lparr>m_previousFormat := base\<lparr>foreground := Some (Rgb 170 0 0)\<rparr>,
                                   m_previousFormatClosed := True\<rparr>, [])
   \<and> parseText (initialHandler base) (FT (escape @ ''31mRED'' @ escape @ ''0mplain'') base) =
       Inr ([FT ''RED'' (base\<lparr>foreground := Some (Rgb 170 0 0)\<rparr>), FT ''plain'' base],
            (initialHandler base)\<lparr>m_previousFormat := base\<lparr>foreground := Some (Rgb 170 0 0)\<rparr>,
                                   m_previousFormatClosed := True\<rparr>, [])
   \<and> parseText (initialHandler base) (FT (escape @ ''1;31mA'' @ escape @ ''mB'') base) =
       Inr ([FT ''A'' (base\<lparr>foreground := Some (Rgb 170 0 0), bold := True\<rparr>), FT ''B'' base],
            (initialHandler base)\<lparr>m_previousFormat :=
                                     base\<lparr>foreground := Some (Rgb 170 0 0), bold := True\<rparr>,
                                   m_previousFormatClosed := True\<rparr>, [])"
proof -
  let ?k = "toUInt (numbers ! i) - 30"
  let ?cf = "cf\<lparr>foreground := Some (Rgb (if bit ?k 0 then 170 else 0)
                       (if bit ?k 1 then 170 else 0) (if bit ?k 2 then 170 else 0))\<rparr>"
  have a: "i < length numbers \<and> 30 \<le> toUInt (numbers ! i) \<and> toUInt (numbers ! i) \<le> 37 \<longrightarrow>
      sgrLoop base numbers i (h, cf) =
        (let k = toUInt (numbers ! i) - 30;
             cf' = cf\<lparr>foreground := Some (Rgb (if bit k 0 then 170 else 0)
                       (if bit k 1 then 170 else 0) (if bit k 2 then 170 else 0))\<rparr>
         in sgrLoop base numbers (i + 1)
              (h\<lparr>m_previousFormat := cf', m_previousFormatClosed := False\<rparr>, cf'))"
  proof
    assume r: "i < length numbers \<and> 30 \<le> toUInt (numbers ! i) \<and> toUInt (numbers ! i) \<le> 37"
    then have l: "?k < 8" by arith
    have "sgrLoop base numbers i (h, cf) =
        sgrLoop base numbers (i + 1)
          (h\<lparr>m_previousFormat := cf\<lparr>foreground := Some (ansiColor ?k)\<rparr>,
             m_previousFormatClosed := False\<rparr>, cf\<lparr>foreground := Some (ansiColor ?k)\<rparr>)"
      using r by (subst sgrLoop.simps) (simp add: Let_def setFormatScope_def)
    then show "sgrLoop base numbers i (h, cf) =
        (let k = toUInt (numbers ! i) - 30;
             cf' = cf\<lparr>foreground := Some (Rgb (if bit k 0 then 170 else 0)
                       (if bit k 1 then 170 else 0) (if bit k 2 then 170 else 0))\<rparr>
         in sgrLoop base numbers (i + 1)
              (h\<lparr>m_previousFormat := cf', m_previousFormatClosed := False\<rparr>, cf'))"
      unfolding ansiColor_bits [OF l] Let_def .
  qed
  have b: "i < length numbers \<and> toUInt (numbers ! i) = 0 \<longrightarrow>
      sgrLoop base numbers i (h, cf) =
        sgrLoop base numbers (i + 1) (h\<lparr>m_previousFormatClosed := True\<rparr>, base)"
    by (subst sgrLoop.simps) (simp add: Let_def endFormatScope_def)
  have c: "length numbers \<le> i \<longrightarrow> sgrLoop base numbers i (h, cf) = Inr (h, cf)"
    by (subst sgrLoop.simps) simp
  have d: "applySgr base numbers (h, cf) =
       (if numbers = [] then Inr (h\<lparr>m_previousFormatClosed := True\<rparr>, base)
        else sgrLoop base numbers 0 (h, cf))"
    by (simp add: applySgr_def sgrLoop.simps endFormatScope_def)
  have e: "t \<noteq> [] \<and> ESC \<notin> set t \<and> m_pendingText h = [] \<and> \<not> m_waitingForTerminator h \<longrightarrow>
        parseText (h\<lparr>m_previousFormat := cf, m_previousFormatClosed := False\<rparr>) (FT t base)
          = Inr ([FT t cf], h\<lparr>m_previousFormat := cf, m_previousFormatClosed := False\<rparr>, [])
      \<and> parseText (h\<lparr>m_previousFormatClosed := True\<rparr>) (FT t base)
          = Inr ([FT t base], h\<lparr>m_previousFormatClosed := True\<rparr>, [])"
    by (simp add: plain_text_carried)
  have f: "parseText (initialHandler base) (FT (escape @ ''31mRED'') base) =
       Inr ([FT ''RED'' (base\<lparr>foreground := Some (Rgb 170 0 0)\<rparr>)],
            (initialHandler base)\<lparr>m_previousFormat := base\<lparr>foreground := Some (Rgb 170 0 0)\<rparr>,
                                   m_previousFormatClosed := False\<rparr>, [])"
    by (simp add: parse_defs bit_0)
  have g: "parseText ((initialHandler base)\<lparr>m_previousFormat := base\<lparr>foreground := Some (Rgb 170 0 0)\<rparr>,
                                       m_previousFormatClosed := False\<rparr>)
         (FT (escape @ ''0mplain'') base) =
       Inr ([FT ''plain'' base],
            (initialHandler base)\<lparr>m_previousFormat := base\<lparr>foreground := Some (Rgb 170 0 0)\<rparr>,
                                   m_previousFormatClosed := True\<rparr>, [])"
    by (simp add: parse_defs)
  have h: "parseText (initialHandler base) (FT (escape @ ''31mRED'' @ escape @ ''0mplain'') base) =
       Inr ([FT ''RED'' (base\<lparr>foreground := Some (Rgb 170 0 0)\<rparr>), FT ''plain'' base],
            (initialHandler base)\<lparr>m_previousFormat := base\<lparr>foreground := Some (Rgb 170 0 0)\<rparr>,
                                   m_previousFormatClosed := True\<rparr>, [])"
    by (simp add: parse_defs bit_0)
  have j: "parseText (initialHandler base) (FT (escape @ ''1;31mA'' @ escape @ ''mB'') base) =
       Inr ([FT ''A'' (base\<lparr>foreground := Some (Rgb 170 0 0), bold := True\<rparr>), FT ''B'' base],
            (initialHandler base)\<lparr>m_previousFormat :=
                                     base\<lparr>foreground := Some (Rgb 170 0 0), bold := True\<rparr>,
                                   m_previousFormatClosed := True\<rparr>, [])"
    by (simp add: parse_defs bit_0)
  from a b c d e f g h j show ?thesis by blast
qed

theorem sgr_foreground_and_reset_witness:
  "1 < length [''1'', ''31''] \<and> 30 \<le> toUInt ([''1'', ''31''] ! 1) \<and> toUInt ([''1'', ''31''] ! 1) \<le> 37
   \<and> sgrLoop defaultFormat [''1'', ''31''] 1
        (initialHandler defaultFormat, defaultFormat\<lparr>bold := True\<rparr>) =
       Inr ((initialHandler defaultFormat)
              \<lparr>m_previousFormat := defaultFormat\<lparr>foreground := Some (Rgb 170 0 0), bold := True\<rparr>,
               m_previousFormatClosed := False\<rparr>,
            defaultFormat\<lparr>foreground := Some (Rgb 170 0 0), bold := True\<rparr>)
   \<and> 1 < length [''31'', ''0''] \<and> toUInt ([''31'', ''0''] ! 1) = 0
   \<and> sgrLoop defaultFormat [''31'', ''0''] 1
        (initialHandler defaultFormat, defaultFormat\<lparr>foreground := Some (Rgb 170 0 0)\<rparr>) =
       Inr ((initialHandler defaultFormat)\<lparr>m_previousFormatClosed := True\<rparr>, defaultFormat)
   \<and> ''more'' \<noteq> [] \<and> ESC \<notin> set ''more'' \<and> m_pendingText (initialHandler defaultFormat) = []
   \<and> \<not> m_waitingForTerminator (initialHandler defaultFormat)
   \<and> parseText ((initialHandler defaultFormat)
                   \<lparr>m_previousFormat := defaultFormat\<lparr>foreground := Some (Rgb 170 0 0)\<rparr>,
                    m_previousFormatClosed := False\<rparr>) (FT ''more'' defaultFormat) =
       Inr ([FT ''more'' (defaultFormat\<lparr>foreground := Some (Rgb 170 0 0)\<rparr>)],
            (initialHandler defaultFormat)
              \<lparr>m_previousFormat := defaultFormat\<lparr>foreground := Some (Rgb 170 0 0)\<rparr>,
               m_previousFormatClosed := False\<rparr>, [])"
proof -
  have t: "toUInt ''31'' = 31" "toUInt ''0'' = 0"
    by (simp_all add: toUInt_def digitsVal_def)
  have e: "sgrLoop base [a, b] (Suc (Suc 0)) p = Inr p" for base a b p
    by (cases p) (simp add: sgrLoop.simps)
  show ?thesis
    using sgr_foreground_and_reset [where numbers = "[''1'', ''31'']" and i = 1
        and base = defaultFormat and h = "initialHandler defaultFormat"
        and cf = "defaultFormat\<lparr>bold := True\<rparr>" and t = "''more''"]
      sgr_foreground_and_reset [where numbers = "[''31'', ''0'']" and i = 1
        and base = defaultFormat and h = "initialHandler defaultFormat"
        and cf = "defaultFormat\<lparr>foreground := Some (Rgb 170 0 0)\<rparr>" and t = "''more''"]
    by (simp add: t e Let_def bit_0 initialHandler_def ESC_def defaultFormat_def)
qed

text \<open>Trimming keeps a suffix of the blocks.\<close>

lemma trimOldest_drop:
  "trimOldest n bs = (if n > 0 then drop (length bs - nat n) bs else bs)"
proof (induction bs)
  case Nil
  then show ?case by simp
next
  case (Cons b bs)
  show ?case
  proof (cases "n > 0 \<and> int (length (b # bs)) > n")
    case True
    then have "length (b # bs) - nat n = Suc (length bs - nat n)" by auto
    with True Cons show ?thesis by simp
  next
    case False
    then show ?thesis by auto
  qed
qed

text \<open>
  C8. With a positive block limit, after every apply the document has at most
  \<open>maxBlockCount\<close> blocks, and what is left are the most recent blocks: the blocks of the
  untrimmed document without its oldest ones, exactly \<open>maxBlockCount\<close> of them when the
  limit was reached. A limit \<open>\<le> 0\<close> removes nothing.
\<close>

theorem scrollback_block_limit:
  "(maxBlockCount > 0 \<longrightarrow>
      int (length (sb_apply events maxBlockCount doc)) \<le> maxBlockCount
      \<and> sb_apply events maxBlockCount doc =
          drop (length (applyEvents events doc) - nat maxBlockCount) (applyEvents events doc)
      \<and> (int (length (applyEvents events doc)) \<ge> maxBlockCount \<longrightarrow>
           int (length (sb_apply events maxBlockCount doc)) = maxBlockCount))
   \<and> (maxBlockCount \<le> 0 \<longrightarrow> sb_apply events maxBlockCount doc = applyEvents events doc)"
  by (auto simp: sb_apply_def trimOldest_drop)

theorem scrollback_block_limit_witness:
  "(2::int) > 0
   \<and> sb_apply [TextRun (FT (''a'' @ [newline] @ ''b'' @ [newline] @ ''c'') defaultFormat)] 2 [[]]
       = [[FT ''b'' defaultFormat], [FT ''c'' defaultFormat]]
   \<and> applyEvents [TextRun (FT (''a'' @ [newline] @ ''b'' @ [newline] @ ''c'') defaultFormat)] [[]]
       = [[FT ''a'' defaultFormat], [FT ''b'' defaultFormat], [FT ''c'' defaultFormat]]
   \<and> \<not> (0::int) > 0
   \<and> sb_apply [TextRun (FT (''a'' @ [newline] @ ''b'') defaultFormat)] 0 [[]]
       = [[FT ''a'' defaultFormat], [FT ''b'' defaultFormat]]"
  using scrollback_block_limit [of 2
      "[TextRun (FT (''a'' @ [newline] @ ''b'' @ [newline] @ ''c'') defaultFormat)]" "[[]]"]
    scrollback_block_limit [of 0
      "[TextRun (FT (''a'' @ [newline] @ ''b'') defaultFormat)]" "[[]]"]
  by (simp add: applyEvents_def appendToLast_def FT_def newline_def)

text \<open>The erase-line commands on the last line, and the way parseText reaches a sequence.\<close>

lemma takeWhile_rev_line:
  "newline \<notin> set l \<Longrightarrow> takeWhile (\<lambda>c. c \<noteq> newline) (rev l @ newline # ys) = rev l"
  by (induction l rule: rev_induct) auto

lemma takeWhile_rev_only:
  "newline \<notin> set l \<Longrightarrow> takeWhile (\<lambda>c. c \<noteq> newline) (rev l) = rev l"
  by (induction l rule: rev_induct) auto

lemma startOfLine_last_line:
  "newline \<notin> set l \<Longrightarrow> startOfLine (d @ newline # l) (length (d @ newline # l)) = Suc (length d)"
  by (simp add: startOfLine_def takeWhile_rev_line)

lemma startOfLine_only_line:
  "newline \<notin> set l \<Longrightarrow> startOfLine l (length l) = 0"
  by (simp add: startOfLine_def takeWhile_rev_only)

lemma eraseLine_only_line: "newline \<notin> set l \<Longrightarrow> eraseLine l = []"
  by (simp add: eraseLine_def startOfLine_only_line Let_def)

lemma eraseLine_last_line:
  assumes "newline \<notin> set l"
  shows "eraseLine (d @ newline # l) = d"
proof -
  have a: "startOfLine (d @ newline # l) (length (d @ newline # l)) = Suc (length d)"
    using assms by (rule startOfLine_last_line)
  have t: "take (Suc (length d)) (d @ newline # l) = d @ [newline]" by simp
  show ?thesis
    unfolding eraseLine_def Let_def a t by simp
qed

lemma contains_nonempty: "contains s t \<Longrightarrow> t \<noteq> [] \<Longrightarrow> s \<noteq> []"
  by (cases s) (auto simp: contains_def)

lemma run_Inner_erase_line:
  assumes "contains (toUpper r) ''2K''"
  shows "run base Inner h cf out (escape @ r) =
           Inr (out, h\<lparr>m_pendingText := m_pendingText h @ escape\<rparr>, [ClearCurrentLine])"
proof -
  have "toUpper r \<noteq> []" using assms by (rule contains_nonempty) simp
  then obtain c cs where r: "r = c # cs" by (cases r) (auto simp: toUpper_def)
  show ?thesis
    using assms unfolding r
    by (subst run.simps(3)) (simp add: escape_def startsWith_def Let_def)
qed


lemma handler_pending_reset: "m_pendingText h = [] \<Longrightarrow> h\<lparr>m_pendingText := []\<rparr> = h"
  by simp

lemma parseText_reaches_Inner:
  assumes "ESC \<notin> set t" and "m_pendingText h = []" and "\<not> m_waitingForTerminator h"
  shows "parseText h (FT (t @ ESC # r) base) =
           run base Inner h (if m_previousFormatClosed h then base else m_previousFormat h)
             (if t = [] then []
              else [FT t (if m_previousFormatClosed h then base else m_previousFormat h)])
             (ESC # r)"
  using assms
  by (simp add: parseText_def run.simps(1,2) indexOfChar_append FT_def Let_def)

text \<open>
  C4. When the text after \<^verbatim>\<open>ESC [\<close> contains \<^verbatim>\<open>2K\<close> in upper case, parseText sends
  the erase-line commands and drops the sequence; on a buffer whose last block is
  \<^verbatim>\<open>hello\<close> they clear that block to empty, and a later append starts fresh block content.

  The second half fails when there is a block before the last: the commands remove the
  text of the last block, and \<^verbatim>\<open>deletePreviousChar\<close> then removes the newline before
  it. The buffer \<^verbatim>\<open>a\<close>, \<^verbatim>\<open>hello\<close> becomes the single block \<^verbatim>\<open>a\<close>, and an appended
  \<^verbatim>\<open>x\<close> continues that block.
\<close>

theorem erase_line_multi_block_counterexample:
  "blocks (''a'' @ [newline] @ ''hello'') = [''a'', ''hello'']
   \<and> blocks (applyCommand ClearCurrentLine (''a'' @ [newline] @ ''hello'')) = [''a'']
   \<and> last (blocks (applyCommand ClearCurrentLine (''a'' @ [newline] @ ''hello''))) \<noteq> []
   \<and> blocks (insertAtEnd (applyCommand ClearCurrentLine (''a'' @ [newline] @ ''hello'')) ''x'')
       = [''ax'']"
proof -
  have e: "applyCommand ClearCurrentLine (''a'' @ [newline] @ ''hello'') = ''a''"
    using eraseLine_last_line [of "''hello''" "''a''"] by (simp add: newline_def)
  show ?thesis
    unfolding e by (simp add: newline_def insertAtEnd_def)
qed

text \<open>
  C4, amended: when the text after \<^verbatim>\<open>ESC [\<close> contains \<^verbatim>\<open>2K\<close> in upper case, parseText
  returns the runs collected so far with the erase-line command, and nothing of the
  sequence. The command removes the text of the last block and the block separator
  before it: the single block \<^verbatim>\<open>hello\<close> becomes one empty block, and text appended next
  is the whole document; with blocks before it, the block \<^verbatim>\<open>hello\<close> disappears and text
  appended next continues the block before.
\<close>

theorem erase_line_marker_and_effect:
  "(contains (toUpper r) ''2K'' \<longrightarrow>
      run base Inner h cf out (escape @ r) =
        Inr (out, h\<lparr>m_pendingText := m_pendingText h @ escape\<rparr>, [ClearCurrentLine]))
   \<and> (contains (toUpper r) ''2K'' \<and> ESC \<notin> set t \<and> m_pendingText h = []
        \<and> \<not> m_waitingForTerminator h \<longrightarrow>
      parseText h (FT (t @ escape @ r) base) =
        Inr (if t = [] then []
             else [FT t (if m_previousFormatClosed h then base else m_previousFormat h)],
             h\<lparr>m_pendingText := escape\<rparr>, [ClearCurrentLine]))
   \<and> blocks (applyCommand ClearCurrentLine ''hello'') = [[]]
   \<and> insertAtEnd (applyCommand ClearCurrentLine ''hello'') x = x
   \<and> applyCommand ClearCurrentLine (d @ newline # ''hello'') = d
   \<and> insertAtEnd (applyCommand ClearCurrentLine (d @ newline # ''hello'')) x = d @ x"
proof -
  have n: "newline \<notin> set ''hello''" by (simp add: newline_def)
  have a: "contains (toUpper r) ''2K'' \<longrightarrow>
      run base Inner h cf out (escape @ r) =
        Inr (out, h\<lparr>m_pendingText := m_pendingText h @ escape\<rparr>, [ClearCurrentLine])"
    by (simp add: run_Inner_erase_line)
  have b: "contains (toUpper r) ''2K'' \<and> ESC \<notin> set t \<and> m_pendingText h = []
        \<and> \<not> m_waitingForTerminator h \<longrightarrow>
      parseText h (FT (t @ escape @ r) base) =
        Inr (if t = [] then []
             else [FT t (if m_previousFormatClosed h then base else m_previousFormat h)],
             h\<lparr>m_pendingText := escape\<rparr>, [ClearCurrentLine])"
  proof
    assume p: "contains (toUpper r) ''2K'' \<and> ESC \<notin> set t \<and> m_pendingText h = []
        \<and> \<not> m_waitingForTerminator h"
    have 1: "parseText h (FT (t @ escape @ r) base) =
        run base Inner h (if m_previousFormatClosed h then base else m_previousFormat h)
          (if t = [] then []
           else [FT t (if m_previousFormatClosed h then base else m_previousFormat h)])
          (escape @ r)"
      using parseText_reaches_Inner [of t h "CHR ''['' # r" base] p by (simp add: escape_def)
    show "parseText h (FT (t @ escape @ r) base) =
        Inr (if t = [] then []
             else [FT t (if m_previousFormatClosed h then base else m_previousFormat h)],
             h\<lparr>m_pendingText := escape\<rparr>, [ClearCurrentLine])"
      unfolding 1 using p by (simp add: run_Inner_erase_line)
  qed
  have c: "applyCommand ClearCurrentLine ''hello'' = []"
    using n by (simp add: eraseLine_only_line)
  have c1: "blocks (applyCommand ClearCurrentLine ''hello'') = [[]]"
    unfolding c by simp
  have c2: "insertAtEnd (applyCommand ClearCurrentLine ''hello'') x = x"
    unfolding c by (simp add: insertAtEnd_def)
  have d1: "applyCommand ClearCurrentLine (d @ newline # ''hello'') = d"
    using eraseLine_last_line [OF n, of d] by simp
  have d2: "insertAtEnd (applyCommand ClearCurrentLine (d @ newline # ''hello'')) x = d @ x"
    unfolding d1 by (simp add: insertAtEnd_def)
  from a b c1 c2 d1 d2 show ?thesis by blast
qed

theorem erase_line_marker_and_effect_witness:
  "contains (toUpper ''2K'') ''2K'' \<and> ESC \<notin> set ''abc''
   \<and> m_pendingText (initialHandler defaultFormat) = []
   \<and> \<not> m_waitingForTerminator (initialHandler defaultFormat)
   \<and> run defaultFormat Inner (initialHandler defaultFormat) defaultFormat [] (escape @ ''2K'') =
        Inr ([], (initialHandler defaultFormat)\<lparr>m_pendingText := escape\<rparr>, [ClearCurrentLine])
   \<and> parseText (initialHandler defaultFormat) (FT (''abc'' @ escape @ ''2K'') defaultFormat) =
        Inr ([FT ''abc'' defaultFormat], (initialHandler defaultFormat)\<lparr>m_pendingText := escape\<rparr>,
             [ClearCurrentLine])"
proof -
  have c: "contains (toUpper ''2K'') ''2K''"
    by (simp add: contains_def toUpper_def toUpperChar_def startsWith_def)
  show ?thesis
    using c erase_line_marker_and_effect [of "''2K''" defaultFormat "initialHandler defaultFormat"
        defaultFormat "[]" "''abc''"]
    by (simp add: initialHandler_def ESC_def)
qed

section \<open>Invariants of the parser's loops\<close>

text \<open>
  The parameter loop changes only the format scope of the handler. An induction rule for
  the loops of parseText follows the measure of the termination proof.
\<close>

lemma sgrLoop_flags:
  "sgrLoop base numbers i (h, cf) = Inr (h', cf') \<Longrightarrow>
     m_pendingText h' = m_pendingText h
     \<and> m_waitingForTerminator h' = m_waitingForTerminator h
     \<and> m_alternateTerminator h' = m_alternateTerminator h"
proof (induction "length numbers - i" arbitrary: i h cf rule: less_induct)
  case less
  have IH: "\<And>j h2 cf2. i < length numbers \<Longrightarrow> i < j \<Longrightarrow>
      sgrLoop base numbers j (h2, cf2) = Inr (h', cf') \<Longrightarrow>
      m_pendingText h' = m_pendingText h2
      \<and> m_waitingForTerminator h' = m_waitingForTerminator h2
      \<and> m_alternateTerminator h' = m_alternateTerminator h2"
  proof -
    fix j h2 cf2
    assume a: "i < length numbers" "i < j" "sgrLoop base numbers j (h2, cf2) = Inr (h', cf')"
    have "length numbers - j < length numbers - i" using a(1,2) by arith
    then show "m_pendingText h' = m_pendingText h2
      \<and> m_waitingForTerminator h' = m_waitingForTerminator h2
      \<and> m_alternateTerminator h' = m_alternateTerminator h2"
      using less.hyps a(3) by blast
  qed
  show ?case
  proof (cases "i < length numbers")
    case False
    then show ?thesis using less.prems by (subst (asm) sgrLoop.simps) simp
  next
    case True
    show ?thesis
      using less.prems
      apply (subst (asm) sgrLoop.simps)
      apply (simp only: Let_def True not_True_eq_False if_False split: if_splits)
      apply (auto dest!: IH[OF True, rotated] simp: setFormatScope_def endFormatScope_def)
      done
  qed
qed

lemma applySgr_pending:
  "applySgr base numbers (h, cf) = Inr (h', cf') \<Longrightarrow> m_pendingText h' = m_pendingText h"
  by (auto simp: applySgr_def endFormatScope_def dest!: sgrLoop_flags split: if_splits)

lemma run_Outer_Nil [simp]: "run base Outer h cf out [] = Inr (out, h, [])"
  by (simp add: run.simps(1))


lemma run_loop_induct [case_names Outer Scan Inner]:
  fixes P :: "place \<Rightarrow> 'h \<Rightarrow> 'c \<Rightarrow> 'o \<Rightarrow> string \<Rightarrow> bool"
  assumes outer: "\<And>h cf out s.
      (\<And>h' s'. length s' \<le> length s \<Longrightarrow> P Scan h' cf out s') \<Longrightarrow> P Outer h cf out s"
    and scan: "\<And>h cf out s.
      (\<And>out' s'. s' \<noteq> [] \<Longrightarrow> hd s' = ESC \<Longrightarrow> length s' \<le> length s
         \<Longrightarrow> P Inner h cf out' s') \<Longrightarrow> P Scan h cf out s"
    and inner: "\<And>h cf out s.
      (s = [] \<or> hd s \<noteq> ESC \<Longrightarrow> P Outer h cf out s) \<Longrightarrow>
      (\<And>pl h' cf' out' s'. s \<noteq> [] \<Longrightarrow> hd s = ESC \<Longrightarrow> length s' < length s
         \<Longrightarrow> P pl h' cf' out' s') \<Longrightarrow> P Inner h cf out s"
  shows "P pl h cf out s"
proof (induction "runMeasure pl s" arbitrary: pl h cf out s rule: less_induct)
  case less
  show ?case
  proof (cases pl)
    case Outer
    show ?thesis unfolding Outer
    proof (rule outer)
      fix h' :: 'h and s' :: string assume "length s' \<le> length s"
      then have "runMeasure Scan s' < runMeasure pl s"
        by (simp add: runMeasure_def Outer)
      then show "P Scan h' cf out s'" by (rule less.hyps)
    qed
  next
    case Scan
    show ?thesis unfolding Scan
    proof (rule scan)
      fix out' :: 'o and s' :: string
      assume "s' \<noteq> []" "hd s' = ESC" "length s' \<le> length s"
      then have "runMeasure Inner s' < runMeasure pl s"
        by (simp add: runMeasure_def Scan)
      then show "P Inner h cf out' s'" by (rule less.hyps)
    qed
  next
    case Inner
    show ?thesis unfolding Inner
    proof (rule inner)
      assume "s = [] \<or> hd s \<noteq> ESC"
      then have "runMeasure Outer s < runMeasure pl s"
        by (auto simp add: runMeasure_def Inner)
      then show "P Outer h cf out s" by (rule less.hyps)
    next
      fix pl' and h' :: 'h and cf' :: 'c and out' :: 'o and s' :: string
      assume "s \<noteq> []" "hd s = ESC" "length s' < length s"
      then have "runMeasure pl' s' < runMeasure pl s"
        by (cases pl') (auto simp add: runMeasure_def Inner)
      then show "P pl' h' cf' out' s'" by (rule less.hyps)
    qed
  qed
qed

lemma scanNumbers_shorter:
  "scanNumbers a b p (drop (length escape) s) = (n, p', s2) \<Longrightarrow> s2 \<noteq> []
     \<Longrightarrow> length (drop (Suc 0) s2) < length s"
  by (drule scanNumbers_length) (cases s2, auto)

lemma startsWith_take: "startsWith s p \<Longrightarrow> take (length p) s = p"
  by (simp add: startsWith_def)

lemma drop_escape_shorter:
  "s \<noteq> [] \<Longrightarrow> length (drop (Suc 0) (drop (length escape) s)) < length s"
  by (cases s) (auto simp: escape_def)

lemma applySgr_waiting:
  "applySgr base numbers (h, cf) = Inr (h', cf') \<Longrightarrow>
     m_waitingForTerminator h' = m_waitingForTerminator h"
  by (auto simp: applySgr_def endFormatScope_def dest!: sgrLoop_flags split: if_splits)

lemma run_clear_line_pending:
  "run base pl h cf out s = Inr (out', h', [ClearCurrentLine]) \<Longrightarrow> m_pendingText h = []
     \<Longrightarrow> (pl \<noteq> Outer \<longrightarrow> \<not> m_waitingForTerminator h)
     \<Longrightarrow> m_pendingText h' = escape \<and> \<not> m_waitingForTerminator h'"
proof (induction pl h cf out s rule: run_loop_induct)
  case (Outer h cf out s)
  show ?case
    using Outer.prems
    apply (subst (asm) run.simps(1))
    apply (auto simp: Let_def split: if_splits option.splits dest: Outer.IH[rotated])
    done
next
  case (Scan h cf out s)
  show ?case
    using Scan.prems
    apply (subst (asm) run.simps(2))
    apply (auto simp: Let_def split: if_splits option.splits dest: Scan.IH[rotated 3])
    done
next
  case (Inner h cf out s)
  show ?case
  proof (cases "s = [] \<or> hd s \<noteq> ESC")
    case True
    then have "run base Outer h cf out s = Inr (out', h', [ClearCurrentLine])"
      using Inner.prems(1) by (subst (asm) run.simps(3)) simp
    then show ?thesis using Inner.IH(1) [OF True] Inner.prems(2) by blast
  next
    case False
    then have ne: "s \<noteq> []" "hd s = ESC" by simp_all
    have IH: "\<And>pl' h2 cf2 out2 s'.
        run base pl' h2 cf2 out2 s' = Inr (out', h', [ClearCurrentLine]) \<Longrightarrow>
        length s' < length s \<Longrightarrow> m_pendingText h2 = [] \<Longrightarrow>
        (pl' \<noteq> Outer \<longrightarrow> \<not> m_waitingForTerminator h2) \<Longrightarrow>
        m_pendingText h' = escape \<and> \<not> m_waitingForTerminator h'"
      using Inner.IH(2) [OF ne] by blast
    show ?thesis
      using Inner.prems ne
      apply (subst (asm) run.simps(3))
      apply (simp only: Let_def split: if_splits list.splits prod.splits sum.splits)
      apply (auto dest!: IH startsWith_take dest: applySgr_pending applySgr_waiting
          intro: scanNumbers_shorter drop_escape_shorter)
      done
  qed
qed

lemma parseText_run:
  "parseText h input =
     run (ft_format input) Outer (h\<lparr>m_pendingText := []\<rparr>)
       (if m_previousFormatClosed h then ft_format input else m_previousFormat h) []
       (m_pendingText h @ ft_text input)"
  by (simp add: parseText_def Let_def handler_pending_reset)

text \<open>
  C10. Whenever parseText detects the erase-line marker and returns early with the
  erase-line command, \<^verbatim>\<open>m_pendingText\<close> is not cleared: it holds exactly the two
  characters \<^verbatim>\<open>ESC [\<close> taken for the dropped sequence. The next call puts them in front of
  the new chunk and so starts in the inner loop at \<^verbatim>\<open>ESC [\<close>: the start of the new chunk
  is read as the parameter text of an escape sequence, not as literal text.
\<close>

theorem erase_line_leaves_introducer_pending:
  assumes "parseText h input = Inr (out, h', [ClearCurrentLine])"
  shows "m_pendingText h' = escape
     \<and> parseText h' (FT c base) =
         run base Inner (h'\<lparr>m_pendingText := []\<rparr>)
           (if m_previousFormatClosed h' then base else m_previousFormat h') [] (escape @ c)"
proof -
  have r: "run (ft_format input) Outer (h\<lparr>m_pendingText := []\<rparr>)
      (if m_previousFormatClosed h then ft_format input else m_previousFormat h) []
      (m_pendingText h @ ft_text input) = Inr (out, h', [ClearCurrentLine])"
    using assms by (simp add: parseText_run)
  have p: "m_pendingText h' = escape \<and> \<not> m_waitingForTerminator h'"
    using run_clear_line_pending [OF r] by simp
  have "parseText h' (FT c base) =
         run base Inner (h'\<lparr>m_pendingText := []\<rparr>)
           (if m_previousFormatClosed h' then base else m_previousFormat h') [] (escape @ c)"
    using p
    by (simp add: parseText_def run.simps(1,2) FT_def Let_def escape_def)
  with p show ?thesis by simp
qed

theorem erase_line_leaves_introducer_pending_witness:
  "parseText (initialHandler defaultFormat) (FT (escape @ ''2K'') defaultFormat) =
     Inr ([], (initialHandler defaultFormat)\<lparr>m_pendingText := escape\<rparr>, [ClearCurrentLine])
   \<and> m_pendingText ((initialHandler defaultFormat)\<lparr>m_pendingText := escape\<rparr>) = escape
   \<and> parseText ((initialHandler defaultFormat)\<lparr>m_pendingText := escape\<rparr>)
        (FT ''1mhello'' defaultFormat) =
       Inr ([FT ''hello'' (defaultFormat\<lparr>bold := True\<rparr>)],
            setFormatScope (defaultFormat\<lparr>bold := True\<rparr>) (initialHandler defaultFormat), [])"
proof -
  have a: "parseText (initialHandler defaultFormat) (FT (escape @ ''2K'') defaultFormat) =
     Inr ([], (initialHandler defaultFormat)\<lparr>m_pendingText := escape\<rparr>, [ClearCurrentLine])"
    by (simp add: parse_defs)
  have b: "run defaultFormat Inner
      ((initialHandler defaultFormat)\<lparr>m_pendingText := escape, m_pendingText := []\<rparr>)
      defaultFormat [] (escape @ ''1mhello'') =
       Inr ([FT ''hello'' (defaultFormat\<lparr>bold := True\<rparr>)],
            setFormatScope (defaultFormat\<lparr>bold := True\<rparr>) (initialHandler defaultFormat), [])"
    by (simp add: parse_defs)
  show ?thesis
    using erase_line_leaves_introducer_pending [OF a, of "''1mhello''" defaultFormat] a b
    by (simp add: initialHandler_def)
qed

section \<open>Runs and chunks\<close>

text \<open>
  The runs that parseText returns have a layout in the text parsed: every step of the
  loops either reads on, which lengthens the last gap, or emits a run that is bounded by
  what follows it. The runs collected before a point of the loops are a prefix of the
  result, unless the \<^verbatim>\<open>2J\<close> branch discards them.
\<close>

lemma indexOfChar_Some:
  "indexOfChar c s = Some p \<Longrightarrow> c \<notin> set (take p s) \<and> p < length s"
proof (induction s arbitrary: p)
  case Nil
  then show ?case by simp
next
  case (Cons x xs)
  then show ?case by (cases p) (auto split: if_splits)
qed



lemma list_case2:
  "(case s of [] \<Rightarrow> d | [e] \<Rightarrow> d | e # c # rest \<Rightarrow> f e c rest) =
     (if length s < 2 then d else f (hd s) (s ! 1) (drop 2 s))"
  by (cases s; cases "tl s") auto








lemma scanNumbers_suffix:
  "scanNumbers a b p s = (n, p', s2) \<Longrightarrow> \<exists>c. s = c @ s2"
proof (induction a b p s rule: scanNumbers.induct)
  case (1 strNumber numbers pend)
  then show ?case by simp
next
  case (2 strNumber numbers pend c cs)
  show ?case
  proof (cases "isDigit c")
    case True
    then obtain d where "cs = d @ s2" using 2 by auto
    then have "c # cs = (c # d) @ s2" by simp
    then show ?thesis by blast
  next
    case False
    show ?thesis
    proof (cases "strNumber = [] \<or> c \<noteq> semicolon")
      case True
      then have "s2 = c # cs" using 2(3) False by (auto simp: Let_def)
      then show ?thesis by simp
    next
      case f: False
      then obtain d where "cs = d @ s2" using 2 False by (auto simp: Let_def)
      then have "c # cs = (c # d) @ s2" by simp
      then show ?thesis by blast
    qed
  qed
qed

lemma scan_suffix:
  "scanNumbers a c p (drop k s) = (n, p', s2) \<Longrightarrow> suffix (drop m s2) s"
proof -
  assume e: "scanNumbers a c p (drop k s) = (n, p', s2)"
  obtain d where "drop k s = d @ s2" using scanNumbers_suffix [OF e] by blast
  then have "suffix s2 (drop k s)" by (simp add: suffix_def)
  then have "suffix s2 s" using suffix_drop suffix_order.trans by blast
  moreover have "suffix (drop m s2) s2" by (rule suffix_drop)
  ultimately show ?thesis using suffix_order.trans by blast
qed

lemma indexOfChar_nth: "indexOfChar c s = Some p \<Longrightarrow> s ! p = c"
proof (induction s arbitrary: p)
  case Nil
  then show ?case by simp
next
  case (Cons x xs)
  then show ?case by (cases p) (auto split: if_splits option.splits)
qed









lemma prependRuns_simps [simp]:
  "prependRuns o1 (Inl e) = Inl e"
  "prependRuns o1 (Inr (o2, h, [])) = Inr (o1 @ o2, h, [])"
  "prependRuns o1 (Inr (o2, h, [ClearCurrentLine])) = Inr (o1 @ o2, h, [ClearCurrentLine])"
  "prependRuns o1 (Inr (o2, h, [ClearScreen])) = Inr (o2, h, [ClearScreen])"
  by (simp_all add: prependRuns_def)

lemma scanNumbers_rest_shorter:
  "s \<noteq> [] \<Longrightarrow>
     length (drop (Suc 0) (snd (snd (scanNumbers a b p (drop (length escape) s))))) < length s"
proof -
  assume s: "s \<noteq> []"
  obtain n p' s2 where e: "scanNumbers a b p (drop (length escape) s) = (n, p', s2)"
    by (cases "scanNumbers a b p (drop (length escape) s)") auto
  have "length s2 \<le> length (drop (length escape) s)" using e by (rule scanNumbers_length)
  then have "length (drop (Suc 0) s2) < length s" using s by (cases s) auto
  then show ?thesis by (simp add: e)
qed

lemma scanNumbers_rest_shorter_minus:
  "s \<noteq> [] \<Longrightarrow>
     length (snd (snd (scanNumbers a b p (drop (length escape) s)))) - Suc 0 < length s"
  using scanNumbers_rest_shorter [of s a b p] by simp

lemma run_prepend:
  "run base pl h cf (o1 @ out) s = prependRuns o1 (run base pl h cf out s)"
proof (induction pl h cf out s rule: run_loop_induct)
  case (Outer h cf out s)
  show ?case
    apply (subst run.simps(1) [of base h cf "o1 @ out" s])
    apply (subst run.simps(1) [of base h cf out s])
    apply (simp add: Let_def Outer.IH split: option.splits)
    done
next
  case (Scan h cf out s)
  have IH: "\<And>out2 p. indexOfChar ESC s = Some p \<Longrightarrow> drop p s \<noteq> [] \<Longrightarrow>
      hd (drop p s) = ESC \<Longrightarrow>
      run base Inner h cf (o1 @ out2) (drop p s) =
        prependRuns o1 (run base Inner h cf out2 (drop p s))"
    by (rule Scan.IH) simp_all
  show ?case
    apply (subst run.simps(2) [of base h cf "o1 @ out" s])
    apply (subst run.simps(2) [of base h cf out s])
    apply (auto simp: Let_def IH Scan.IH split: option.splits)
    done
next
  case (Inner h cf out s)
  show ?case
  proof (cases "s = [] \<or> hd s \<noteq> ESC")
    case True
    show ?thesis
      apply (subst run.simps(3) [of base h cf "o1 @ out" s])
      apply (subst run.simps(3) [of base h cf out s])
      using True Inner.IH(1) [OF True]
      apply simp
      done
  next
    case False
    then have ne: "s \<noteq> []" "hd s = ESC" by simp_all
    have IH: "\<And>pl' h2 cf2 out2 s'. length s' < length s \<Longrightarrow>
        run base pl' h2 cf2 (o1 @ out2) s' = prependRuns o1 (run base pl' h2 cf2 out2 s')"
      using Inner.IH(2) [OF ne] by blast
    have l: "length (drop (Suc 0) s) < length s" "length (drop 2 s) < length s"
      "length (drop (Suc 0) (drop (length escape) s)) < length s"
      using ne(1) by (cases s; simp add: escape_def)+
    show ?thesis
      apply (subst run.simps(3) [of base h cf "o1 @ out" s])
      apply (subst run.simps(3) [of base h cf out s])
      apply (simp add: Let_def IH split_beta scanNumbers_rest_shorter_minus list_case2 ne l
          split: sum.splits)
      done
  qed
qed





text \<open>
  The beginning of a sequence is read to its end and kept as pending text, with nothing
  else changed.
\<close>

lemma scanNumbers_paramText:
  "paramText (strNumber \<noteq> []) ps \<Longrightarrow>
     snd (scanNumbers strNumber numbers pend ps) = (pend @ ps, [])"
proof (induction ps arbitrary: strNumber numbers pend)
  case Nil
  then show ?case by simp
next
  case (Cons c cs)
  show ?case
  proof (cases "isDigit c")
    case True
    then have "paramText (strNumber @ [c] \<noteq> []) cs" using Cons.prems by simp
    then show ?thesis using True Cons.IH [of "strNumber @ [c]"] by simp
  next
    case False
    then have p: "c = semicolon" "strNumber \<noteq> []" "paramText ([] \<noteq> ([]::string)) cs"
      using Cons.prems by simp_all
    show ?thesis using False p(1,2) Cons.IH [OF p(3)] by (simp add: Let_def)
  qed
qed

lemma paramText_chars: "paramText d ps \<Longrightarrow> c \<in> set ps \<Longrightarrow> isDigit c \<or> c = semicolon"
  by (induction ps arbitrary: d) (auto split: if_splits)

lemma toUpperChar_param: "isDigit c \<or> c = semicolon \<Longrightarrow> toUpperChar c = c"
  by (auto simp: toUpperChar_def isDigit_def semicolon_def)

lemma toUpper_paramText: "paramText d ps \<Longrightarrow> toUpper ps = ps"
  unfolding toUpper_def
  by (rule map_idI) (auto dest: paramText_chars simp: toUpperChar_param)

lemma indexOf_second: "indexOf s [a, b] = Some n \<Longrightarrow> b \<in> set s"
proof (induction s arbitrary: n)
  case Nil
  then show ?case by simp
next
  case (Cons x xs)
  show ?case
  proof (cases "startsWith (x # xs) [a, b]")
    case True
    then have "take 2 (x # xs) = [a, b]" by (simp add: startsWith_def)
    then have "b \<in> set (take 2 (x # xs))" by simp
    then show ?thesis by (meson in_set_takeD)
  next
    case False
    then show ?thesis using Cons by auto
  qed
qed

lemma paramText_no_marker:
  assumes "paramText d ps"
  shows "\<not> contains (toUpper ps) ''2K''" and "\<not> contains (toUpper ps) ''2J''"
    and "d = False \<Longrightarrow> \<not> startsWith ps [eraseToEol]"
proof -
  have k: "CHR ''K'' \<notin> set ps" "CHR ''J'' \<notin> set ps"
    using paramText_chars [OF assms, of "CHR ''K''"] paramText_chars [OF assms, of "CHR ''J''"]
    by (auto simp: isDigit_def semicolon_def)
  have "indexOf ps ''2K'' = None"
    using k(1) indexOf_second [of ps "CHR ''2''" "CHR ''K''"]
    by (cases "indexOf ps ''2K''") auto
  then show "\<not> contains (toUpper ps) ''2K''"
    by (simp add: contains_def toUpper_paramText [OF assms])
  have "indexOf ps ''2J'' = None"
    using k(2) indexOf_second [of ps "CHR ''2''" "CHR ''J''"]
    by (cases "indexOf ps ''2J''") auto
  then show "\<not> contains (toUpper ps) ''2J''"
    by (simp add: contains_def toUpper_paramText [OF assms])
  show "d = False \<Longrightarrow> \<not> startsWith ps [eraseToEol]"
    using assms by (cases ps) (auto simp: startsWith_def eraseToEol_def isDigit_def split: if_splits)
qed

lemma run_Inner_partial:
  assumes "partialSequence q" and "m_pendingText h = []"
  shows "run base Inner h cf out q = Inr (out, h\<lparr>m_pendingText := q\<rparr>, [])"
proof (cases "startsWith escape q")
  case True
  have "q \<noteq> [] \<and> hd q = ESC"
    using assms(1) by (cases q) (auto simp: partialSequence_def startsWith_def escape_def)
  then show ?thesis
    using True assms(2) by (subst run.simps(3)) simp
next
  case False
  then have "q \<noteq> [ESC]" by (auto simp: startsWith_def escape_def)
  then have s: "startsWith q escape" and p: "paramText False (drop 2 q)"
    using assms(1) by (auto simp: partialSequence_def)
  have q: "q = escape @ drop 2 q"
    using s by (metis append_take_drop_id startsWith_def escape_def length_Cons list.size(3)
        numeral_2_eq_2)
  have ne: "q \<noteq> [] \<and> hd q = ESC"
    using s by (cases q) (auto simp: startsWith_def escape_def)
  have "snd (scanNumbers [] [] escape (drop 2 q)) = (escape @ drop 2 q, [])"
    using p by (intro scanNumbers_paramText) simp
  then have "snd (scanNumbers [] [] escape (drop 2 q)) = (q, [])"
    using q by simp
  then obtain n where sc: "scanNumbers [] [] escape (drop 2 q) = (n, q, [])"
    by (cases "scanNumbers [] [] escape (drop 2 q)") auto
  have t: "take 2 q = escape" using s by (simp add: startsWith_def escape_def numeral_2_eq_2)
  have l: "length escape = 2" by (simp add: escape_def)
  show ?thesis
    using False s ne assms(2) paramText_no_marker [OF p]
    apply (subst run.simps(3))
    apply (simp add: Let_def t l sc)
    done
qed


lemma partialSequence_ESC: "partialSequence q \<Longrightarrow> \<exists>r. q = ESC # r"
  by (cases q) (auto simp: partialSequence_def startsWith_def escape_def)

text \<open>
  A call on a buffer followed by a later chunk. While the tests of parseText on the buffer
  do not depend on the chunk, the call on both goes through the same steps as the call on
  the buffer alone, up to the point where that call stops inside a sequence; from there
  it goes on as the next call does, with the pending text in front of the chunk.
\<close>

lemma startsWith_length: "startsWith s t \<Longrightarrow> length t \<le> length s"
proof -
  assume "startsWith s t"
  then have "length (take (length t) s) = length t" by (simp add: startsWith_def)
  then show ?thesis by simp
qed

lemma startsWith_append:
  "length t \<le> length s \<Longrightarrow> startsWith (s @ r) t = startsWith s t"
  by (simp add: startsWith_def)

lemma indexOf_bound: "indexOf s t = Some n \<Longrightarrow> n + length t \<le> length s"
proof (induction s arbitrary: n)
  case Nil
  then show ?case by (simp split: if_splits)
next
  case (Cons x xs)
  show ?case
  proof (cases "startsWith (x # xs) t")
    case True
    then show ?thesis using Cons.prems startsWith_length [OF True] by simp
  next
    case False
    then obtain m where "indexOf xs t = Some m" "n = Suc m" using Cons.prems by auto
    then show ?thesis using Cons.IH by fastforce
  qed
qed

lemma indexOf_append: "indexOf s t = Some n \<Longrightarrow> indexOf (s @ r) t = Some n"
proof (induction s arbitrary: n)
  case Nil
  then show ?case by (cases r) (auto simp: startsWith_def split: if_splits)
next
  case (Cons x xs)
  have l: "length t \<le> length (x # xs)" using indexOf_bound [OF Cons.prems] by simp
  show ?case
  proof (cases "startsWith (x # xs) t")
    case True
    then show ?thesis using Cons.prems l startsWith_append [OF l, of r] by simp
  next
    case False
    then obtain m where m: "indexOf xs t = Some m" "n = Suc m" using Cons.prems by auto
    have "\<not> startsWith ((x # xs) @ r) t" using False startsWith_append [OF l, of r] by simp
    then show ?thesis using Cons.IH [OF m(1)] m(2) by simp
  qed
qed

lemma contains_prefix: "contains a t \<Longrightarrow> contains (a @ b) t"
  unfolding contains_def using indexOf_append by fastforce

lemma contains_suffix: "contains b t \<Longrightarrow> contains (a @ b) t"
  by (induction a) (auto simp: contains_def)

lemma toUpper_append: "toUpper (a @ b) = toUpper a @ toUpper b"
  by (simp add: toUpper_def)

lemma noMarker_suffix: "noMarker (a @ b) \<Longrightarrow> noMarker b"
  unfolding noMarker_def toUpper_append using contains_suffix by blast

lemma noMarker_prefix: "noMarker (a @ b) \<Longrightarrow> noMarker a"
  unfolding noMarker_def toUpper_append using contains_prefix by blast

lemma afterIntroducer_tl: "\<exists>a. tl s = a @ afterIntroducer s"
proof (induction s)
  case Nil
  then show ?case by simp
next
  case (Cons x xs)
  show ?case
  proof (cases "startsWith (x # xs) escape")
    case True
    have "xs = take (Suc 0) xs @ drop (Suc 0) xs" by simp
    then have "\<exists>a. xs = a @ drop (Suc 0) xs" by blast
    then show ?thesis using True by (simp add: escape_def)
  next
    case False
    obtain a where a: "tl xs = a @ afterIntroducer xs" using Cons by blast
    show ?thesis
    proof (cases xs)
      case Nil
      then show ?thesis using False by simp
    next
      case (Cons y ys)
      then have "x # xs = x # y # ys" by simp
      then have "tl (x # xs) = (y # a) @ afterIntroducer (x # xs)"
        using a False Cons by simp
      then show ?thesis by blast
    qed
  qed
qed

lemma afterIntroducer_Cons: "\<exists>a. afterIntroducer (x # xs) = a @ afterIntroducer xs"
proof (cases "startsWith (x # xs) escape")
  case True
  obtain a where "tl xs = a @ afterIntroducer xs" using afterIntroducer_tl by blast
  then show ?thesis using True by (simp add: escape_def drop_Suc)
next
  case False
  then show ?thesis by simp
qed

lemma noMarker_afterIntroducer_suffix:
  "noMarker (afterIntroducer (a @ s)) \<Longrightarrow> noMarker (afterIntroducer s)"
proof (induction a)
  case Nil
  then show ?case by simp
next
  case (Cons x xs)
  obtain b where "afterIntroducer (x # xs @ s) = b @ afterIntroducer (xs @ s)"
    using afterIntroducer_Cons by blast
  then have "noMarker (afterIntroducer (xs @ s))"
    using Cons.prems noMarker_suffix by (metis append_Cons)
  then show ?case by (rule Cons.IH)
qed

lemma afterIntroducer_append: "\<exists>r. afterIntroducer (a @ b) = afterIntroducer a @ r"
proof (induction a)
  case Nil
  then show ?case by simp
next
  case (Cons x xs)
  show ?case
  proof (cases "startsWith (x # xs) escape")
    case True
    then have l: "length escape \<le> length (x # xs)" by (rule startsWith_length)
    then have "startsWith ((x # xs) @ b) escape" using True startsWith_append by blast
    then show ?thesis using True l by (simp add: escape_def)
  next
    case False
    show ?thesis
    proof (cases "startsWith ((x # xs) @ b) escape")
      case True
      have "xs = []" using True False by (cases xs) (auto simp: startsWith_def escape_def)
      then show ?thesis using False by simp
    next
      case f: False
      then show ?thesis using False Cons by simp
    qed
  qed
qed

lemma noMarker_afterIntroducer_prefix:
  "noMarker (afterIntroducer (a @ b)) \<Longrightarrow> noMarker (afterIntroducer a)"
  using afterIntroducer_append [of a b] noMarker_prefix by metis

lemma splitSafe_suffix: "splitSafe (a @ s) c \<Longrightarrow> splitSafe s c"
  unfolding splitSafe_def
  using noMarker_afterIntroducer_suffix [of a "s @ c"] contains_suffix [of "s @ c" _ a]
  by auto

lemma splitSafe_drop: "splitSafe s c \<Longrightarrow> splitSafe (drop n s) c"
  using splitSafe_suffix [of "take n s" "drop n s" c] by simp

lemma indexOfChar_append_Some:
  "indexOfChar c s = Some p \<Longrightarrow> indexOfChar c (s @ r) = Some p"
  by (induction s arbitrary: p) (auto split: if_splits)

lemma indexOf_single: "indexOf s [c] = Some n \<Longrightarrow> c \<in> set s"
proof (induction s arbitrary: n)
  case Nil
  then show ?case by simp
next
  case (Cons x xs)
  then show ?case by (cases "startsWith (x # xs) [c]") (auto simp: startsWith_def)
qed

lemma findTerminator_bound: "findTerminator alt s = Some n \<Longrightarrow> n \<le> length s"
  by (auto simp: findTerminator_def split: option.splits if_splits dest: indexOf_bound)

lemma findTerminator_append:
  assumes "findTerminator alt s = Some n" and "alt = [] \<or> alt = [BEL]"
    and "BEL \<notin> set s \<or> \<not> contains (s @ c) [ESC, backslash]"
  shows "findTerminator alt (s @ c) = Some n"
proof (cases "indexOf s [ESC, backslash]")
  case (Some p)
  then show ?thesis using assms(1) indexOf_append [OF Some, of c] by (simp add: findTerminator_def)
next
  case None
  then obtain p where p: "alt \<noteq> []" "indexOf s alt = Some p" "n = p + length alt"
    using assms(1) by (auto simp: findTerminator_def split: option.splits if_splits)
  then have "alt = [BEL]" using assms(2) by simp
  then have "BEL \<in> set s" using p(2) indexOf_single by blast
  then have "indexOf (s @ c) [ESC, backslash] = None" using assms(3) by (simp add: contains_def)
  then show ?thesis using p indexOf_append [OF p(2), of c] by (simp add: findTerminator_def)
qed

lemma scanNumbers_append:
  "scanNumbers a b p s = (n, p', s2) \<Longrightarrow> s2 \<noteq> []
     \<Longrightarrow> scanNumbers a b p (s @ c) = (n, p', s2 @ c)"
  by (induction a b p s rule: scanNumbers.induct) (auto simp: Let_def split: if_splits)

lemma scanNumbers_all:
  "scanNumbers a b p s = (n, p', []) \<Longrightarrow> p' = p @ s"
  by (induction a b p s rule: scanNumbers.induct) (auto simp: Let_def split: if_splits)

lemma sgrLoop_format:
  "sgrLoop base numbers i (h, cf) = Inr (h', cf') \<Longrightarrow>
     cf = (if m_previousFormatClosed h then base else m_previousFormat h) \<Longrightarrow>
     cf' = (if m_previousFormatClosed h' then base else m_previousFormat h')"
proof (induction "length numbers - i" arbitrary: i h cf rule: less_induct)
  case less
  have IH: "\<And>j h2 cf2. i < length numbers \<Longrightarrow> i < j \<Longrightarrow>
      sgrLoop base numbers j (h2, cf2) = Inr (h', cf') \<Longrightarrow>
      cf2 = (if m_previousFormatClosed h2 then base else m_previousFormat h2) \<Longrightarrow>
      cf' = (if m_previousFormatClosed h' then base else m_previousFormat h')"
  proof -
    fix j h2 cf2
    assume a: "i < length numbers" "i < j" "sgrLoop base numbers j (h2, cf2) = Inr (h', cf')"
      "cf2 = (if m_previousFormatClosed h2 then base else m_previousFormat h2)"
    have "length numbers - j < length numbers - i" using a(1,2) by arith
    then show "cf' = (if m_previousFormatClosed h' then base else m_previousFormat h')"
      using less.hyps a(3,4) by blast
  qed
  show ?case
  proof (cases "i < length numbers")
    case False
    then show ?thesis using less.prems by (subst (asm) sgrLoop.simps) (auto split: if_splits)
  next
    case True
    show ?thesis
      using less.prems(1)
      apply (subst (asm) sgrLoop.simps)
      apply (simp only: Let_def True not_True_eq_False if_False split: if_splits)
      apply (auto dest!: IH[OF True, rotated] simp: setFormatScope_def endFormatScope_def less.prems(2))
      done
  qed
qed

lemma applySgr_format:
  "applySgr base numbers (h, cf) = Inr (h', cf') \<Longrightarrow>
     cf = (if m_previousFormatClosed h then base else m_previousFormat h) \<Longrightarrow>
     cf' = (if m_previousFormatClosed h' then base else m_previousFormat h')"
  unfolding applySgr_def
  by (cases "numbers = []") (auto dest!: sgrLoop_format simp: endFormatScope_def)

lemma applySgr_alternate:
  "applySgr base numbers (h, cf) = Inr (h', cf') \<Longrightarrow>
     m_alternateTerminator h' = m_alternateTerminator h"
  by (auto simp: applySgr_def endFormatScope_def dest!: sgrLoop_flags split: if_splits)

lemma run_Outer_ESC:
  "m_pendingText h = [] \<Longrightarrow> \<not> m_waitingForTerminator h \<Longrightarrow>
     run base Outer h cf out (ESC # r) = run base Inner h cf out (ESC # r)"
  by (simp add: run.simps(1,2))

lemma run_Inner_switch:
  "c \<noteq> CHR ''['' \<Longrightarrow>
   run base Inner h cf out (ESC # c # rest) =
     (if c = backslash \<or> c = CHR ''N'' \<or> c = CHR ''O'' then run base Outer h cf out rest
      else if c = CHR '']'' then
        run base Outer (h\<lparr>m_alternateTerminator := [BEL], m_waitingForTerminator := True\<rparr>)
          cf out rest
      else if c = CHR ''P'' \<or> c = CHR ''X'' \<or> c = CHR ''^'' \<or> c = CHR ''_'' then
        run base Outer (h\<lparr>m_waitingForTerminator := True\<rparr>) cf out rest
      else run base Inner (h\<lparr>m_pendingText := []\<rparr>) cf (out @ [FT [ESC] cf]) (c # rest))"
  by (subst run.simps(3)) (simp add: startsWith_def escape_def)

lemma run_Inner_csi:
  "s1 \<noteq> [] \<Longrightarrow>
   run base Inner h cf out (ESC # CHR ''['' # s1) =
     (if contains (toUpper s1) ''2K''
      then Inr (out, h\<lparr>m_pendingText := m_pendingText h @ escape\<rparr>, [ClearCurrentLine])
      else if contains (toUpper s1) ''2J''
      then Inr ([], h\<lparr>m_pendingText := m_pendingText h @ escape\<rparr>, [ClearScreen])
      else if startsWith s1 [eraseToEol] then
        run base Inner (h\<lparr>m_pendingText := []\<rparr>) cf out (drop 1 s1)
      else
        (case scanNumbers [] [] (m_pendingText h @ escape) s1 of
           (numbers, pend, s2) \<Rightarrow>
             (if s2 = [] then Inr (out, h\<lparr>m_pendingText := pend\<rparr>, [])
              else if \<not> startsWith s2 [colorTerminator] then
                run base Outer (h\<lparr>m_pendingText := []\<rparr>) cf out (drop 1 s2)
              else
                (case applySgr base numbers (h\<lparr>m_pendingText := []\<rparr>, cf) of
                   Inl err \<Rightarrow> Inl err
                 | Inr (h3, cf3) \<Rightarrow> run base Inner h3 cf3 out (drop 1 s2)))))"
  by (subst run.simps(3)) (simp add: startsWith_def escape_def Let_def split: prod.split)

lemma run_Inner_stash:
  "s = [ESC] \<or> s = escape \<Longrightarrow>
     run base Inner h cf out s = Inr (out, h\<lparr>m_pendingText := m_pendingText h @ s\<rparr>, [])"
  by (subst run.simps(3)) (auto simp: startsWith_def escape_def)

lemma run_append:
  assumes E: "m_pendingText h1 \<noteq> [] \<or> m_waitingForTerminator h1"
  shows "run base pl h cf out s = Inr (out1, h1, w1) \<Longrightarrow> m_pendingText h = [] \<Longrightarrow>
     (pl \<noteq> Outer \<longrightarrow> \<not> m_waitingForTerminator h) \<Longrightarrow>
     cf = (if m_previousFormatClosed h then base else m_previousFormat h) \<Longrightarrow>
     m_alternateTerminator h = [] \<or> m_alternateTerminator h = [BEL] \<Longrightarrow>
     splitSafe s c2 \<Longrightarrow>
     run base pl h cf out (s @ c2) =
       run base Outer (h1\<lparr>m_pendingText := []\<rparr>)
         (if m_previousFormatClosed h1 then base else m_previousFormat h1) out1
         (m_pendingText h1 @ c2)"
proof (induction pl h cf out s rule: run_loop_induct)
  case (Outer h cf out s)
  note p = Outer.prems
  show ?case
  proof (cases "s = []")
    case True
    then have r: "out1 = out" "h1 = h" using p(1) by simp_all
    have f: "(if m_previousFormatClosed h1 then base else m_previousFormat h1) = cf"
      "h1\<lparr>m_pendingText := []\<rparr> = h" "m_pendingText h1 = []"
      using r p(2,4) by (simp_all add: handler_pending_reset)
    show ?thesis by (simp only: f) (simp add: r True)
  next
    case False
    show ?thesis
    proof (cases "m_waitingForTerminator h")
      case w: True
      show ?thesis
      proof (cases "findTerminator (m_alternateTerminator h) s")
        case None
        then have r: "out1 = out" "h1 = h\<lparr>m_pendingText := s\<rparr>"
          using p(1,2) False w by (simp_all add: run.simps(1))
        have f: "(if m_previousFormatClosed h1 then base else m_previousFormat h1) = cf"
          "h1\<lparr>m_pendingText := []\<rparr> = h" "m_pendingText h1 = s"
          using r p(2,4) by (simp_all add: handler_pending_reset)
        show ?thesis by (simp only: f) (simp add: r)
      next
        case (Some n)
        let ?h' = "h\<lparr>m_waitingForTerminator := False, m_alternateTerminator := []\<rparr>"
        have f: "findTerminator (m_alternateTerminator h) (s @ c2) = Some n"
          using findTerminator_append [OF Some p(5)] p(6) by (simp add: splitSafe_def)
        have n: "n \<le> length s" using Some by (rule findTerminator_bound)
        show ?thesis
        proof (cases "drop n s = []")
          case True
          then have "h1 = ?h'" using p(1,2) False w Some by (simp add: run.simps(1))
          then show ?thesis using E p(2) by simp
        next
          case d: False
          have c1: "run base Scan ?h' cf out (drop n s) = Inr (out1, h1, w1)"
            using p(1,2) False w Some d by (simp add: run.simps(1))
          have "run base Scan ?h' cf out (drop n s @ c2) =
              run base Outer (h1\<lparr>m_pendingText := []\<rparr>)
                (if m_previousFormatClosed h1 then base else m_previousFormat h1) out1
                (m_pendingText h1 @ c2)"
            using p(2,4) splitSafe_drop [OF p(6), of n]
            by (intro Outer.IH [OF _ c1]) simp_all
          moreover have "run base Outer h cf out (s @ c2) =
              run base Scan ?h' cf out (drop n s @ c2)"
            using False w f n d p(2) by (simp add: run.simps(1))
          ultimately show ?thesis by simp
        qed
      qed
    next
      case w: False
      have c1: "run base Scan h cf out s = Inr (out1, h1, w1)"
        using p(1,2) False w by (simp add: run.simps(1))
      have "run base Scan h cf out (s @ c2) =
          run base Outer (h1\<lparr>m_pendingText := []\<rparr>)
            (if m_previousFormatClosed h1 then base else m_previousFormat h1) out1
            (m_pendingText h1 @ c2)"
        using p(2,4,5,6) w by (intro Outer.IH [OF _ c1]) simp_all
      moreover have "run base Outer h cf out (s @ c2) = run base Scan h cf out (s @ c2)"
        using False w p(2) by (simp add: run.simps(1))
      ultimately show ?thesis by simp
    qed
  qed
next
  case (Scan h cf out s)
  note p = Scan.prems
  show ?case
  proof (cases "indexOfChar ESC s")
    case None
    then have "h1 = h" using p(1) by (simp add: run.simps(2))
    then show ?thesis using E p(2,3) by simp
  next
    case (Some pos)
    let ?out = "if pos \<noteq> 0 then out @ [FT (take pos s) cf] else out"
    have l: "pos < length s" using indexOfChar_Some [OF Some] by simp
    have e: "hd (drop pos s) = ESC" "drop pos s \<noteq> []"
      using indexOfChar_nth [OF Some] l by (simp_all add: hd_drop_conv_nth)
    have c1: "run base Inner h cf ?out (drop pos s) = Inr (out1, h1, w1)"
      using p(1) Some e by (simp add: run.simps(2) Let_def)
    have "run base Inner h cf ?out (drop pos s @ c2) =
        run base Outer (h1\<lparr>m_pendingText := []\<rparr>)
          (if m_previousFormatClosed h1 then base else m_previousFormat h1) out1
          (m_pendingText h1 @ c2)"
      using p(2,3,4,5) splitSafe_drop [OF p(6), of pos] e
      by (intro Scan.IH [OF _ _ _ c1]) simp_all
    moreover have "run base Scan h cf out (s @ c2) =
        run base Inner h cf ?out (drop pos s @ c2)"
      using indexOfChar_append_Some [OF Some, of c2] l e
      by (simp add: run.simps(2) Let_def)
    ultimately show ?thesis by simp
  qed
next
  case (Inner h cf out s)
  note p = Inner.prems
  let ?R = "run base Outer (h1\<lparr>m_pendingText := []\<rparr>)
          (if m_previousFormatClosed h1 then base else m_previousFormat h1) out1
          (m_pendingText h1 @ c2)"
  have nw: "\<not> m_waitingForTerminator h" using p(3) by simp
  show ?case
  proof (cases "s = [] \<or> hd s \<noteq> ESC")
    case True
    have c1: "run base Outer h cf out s = Inr (out1, h1, w1)"
      using p(1) True by (subst (asm) run.simps(3)) simp
    show ?thesis
    proof (cases "s = []")
      case e: True
      then have "h1 = h" using c1 by simp
      then show ?thesis using E p(2) nw by simp
    next
      case ne: False
      then have "hd (s @ c2) \<noteq> ESC" "s @ c2 \<noteq> []" using True by simp_all
      then have "run base Inner h cf out (s @ c2) = run base Outer h cf out (s @ c2)"
        by (subst run.simps(3)) simp
      moreover have "run base Outer h cf out (s @ c2) = ?R"
        using p(2,4,5,6) by (intro Inner.IH(1) [OF True c1]) simp_all
      ultimately show ?thesis by simp
    qed
  next
    case False
    then have ne: "s \<noteq> []" "hd s = ESC" by simp_all
    have IH: "\<And>pl' h2 cf2 out2 s'.
        run base pl' h2 cf2 out2 s' = Inr (out1, h1, w1) \<Longrightarrow> length s' < length s \<Longrightarrow>
        m_pendingText h2 = [] \<Longrightarrow> (pl' \<noteq> Outer \<longrightarrow> \<not> m_waitingForTerminator h2) \<Longrightarrow>
        cf2 = (if m_previousFormatClosed h2 then base else m_previousFormat h2) \<Longrightarrow>
        m_alternateTerminator h2 = [] \<or> m_alternateTerminator h2 = [BEL] \<Longrightarrow>
        splitSafe s' c2 \<Longrightarrow> run base pl' h2 cf2 out2 (s' @ c2) = ?R"
      using Inner.IH(2) [OF ne] by blast
    obtain rest0 where s0: "s = ESC # rest0" using ne by (cases s) auto
    have stash: "s = [ESC] \<or> s = escape \<Longrightarrow> ?thesis"
    proof -
      assume a: "s = [ESC] \<or> s = escape"
      have r: "out1 = out" "h1 = h\<lparr>m_pendingText := s\<rparr>"
        using p(1,2) run_Inner_stash [OF a, of base h cf out] by simp_all
      have f: "(if m_previousFormatClosed h1 then base else m_previousFormat h1) = cf"
        "h1\<lparr>m_pendingText := []\<rparr> = h" "m_pendingText h1 = s"
        using r p(2,4) by (simp_all add: handler_pending_reset)
      have "run base Outer h cf out (s @ c2) = run base Inner h cf out (s @ c2)"
        unfolding s0 using run_Outer_ESC [OF p(2) nw] by simp
      then show ?thesis by (simp only: f) (simp add: r)
    qed
    show ?thesis
    proof (cases rest0)
      case Nil
      then show ?thesis using stash s0 by simp
    next
      case (Cons c rest)
      have s: "s = ESC # c # rest" using s0 Cons by simp
      have sf: "splitSafe rest c2" "splitSafe (c # rest) c2"
        using splitSafe_suffix [of "[ESC, c]" rest c2] splitSafe_suffix [of "[ESC]" "c # rest" c2]
          p(6) s by simp_all
      show ?thesis
      proof (cases "c = CHR ''[''")
        case nb: False
        have lr: "length rest < length s" "length (c # rest) < length s" by (simp_all add: s)
        have sw: "run base Inner h cf out (s @ c2) =
            (if c = backslash \<or> c = CHR ''N'' \<or> c = CHR ''O'' then
               run base Outer h cf out (rest @ c2)
             else if c = CHR '']'' then
               run base Outer
                 (h\<lparr>m_alternateTerminator := [BEL], m_waitingForTerminator := True\<rparr>)
                 cf out (rest @ c2)
             else if c = CHR ''P'' \<or> c = CHR ''X'' \<or> c = CHR ''^'' \<or> c = CHR ''_'' then
               run base Outer (h\<lparr>m_waitingForTerminator := True\<rparr>) cf out (rest @ c2)
             else run base Inner (h\<lparr>m_pendingText := []\<rparr>) cf (out @ [FT [ESC] cf])
                    ((c # rest) @ c2))"
          unfolding s append_Cons by (rule run_Inner_switch [OF nb])
        note c0 = p(1) [unfolded s run_Inner_switch [OF nb]]
        show ?thesis
        proof (cases "c = backslash \<or> c = CHR ''N'' \<or> c = CHR ''O''")
          case True
          have c1: "run base Outer h cf out rest = Inr (out1, h1, w1)" using c0 True by simp
          have "run base Outer h cf out (rest @ c2) = ?R"
            using p(2,4,5) lr sf by (intro IH [OF c1]) simp_all
          then show ?thesis using sw True by simp
        next
          case n1: False
          show ?thesis
          proof (cases "c = CHR '']''")
            case True
            have c1: "run base Outer
                (h\<lparr>m_alternateTerminator := [BEL], m_waitingForTerminator := True\<rparr>)
                cf out rest = Inr (out1, h1, w1)"
              using c0 n1 True by simp
            have "run base Outer
                (h\<lparr>m_alternateTerminator := [BEL], m_waitingForTerminator := True\<rparr>)
                cf out (rest @ c2) = ?R"
              using p(2,4) lr sf by (intro IH [OF c1]) simp_all
            then show ?thesis using sw n1 True by simp
          next
            case n2: False
            show ?thesis
            proof (cases "c = CHR ''P'' \<or> c = CHR ''X'' \<or> c = CHR ''^'' \<or> c = CHR ''_''")
              case True
              have c1: "run base Outer (h\<lparr>m_waitingForTerminator := True\<rparr>) cf out rest
                  = Inr (out1, h1, w1)"
                using c0 n1 n2 True by simp
              have "run base Outer (h\<lparr>m_waitingForTerminator := True\<rparr>) cf out (rest @ c2)
                  = ?R"
                using p(2,4,5) lr sf by (intro IH [OF c1]) simp_all
              then show ?thesis using sw n1 n2 True by simp
            next
              case n3: False
              have c1: "run base Inner (h\<lparr>m_pendingText := []\<rparr>) cf (out @ [FT [ESC] cf])
                  (c # rest) = Inr (out1, h1, w1)"
                using c0 n1 n2 n3 by simp
              have "run base Inner (h\<lparr>m_pendingText := []\<rparr>) cf (out @ [FT [ESC] cf])
                  ((c # rest) @ c2) = ?R"
                using p(2,4,5) nw lr sf by (intro IH [OF c1]) simp_all
              then show ?thesis using sw n1 n2 n3 by simp
            qed
          qed
        qed
      next
        case True
        then have s1: "s = ESC # CHR ''['' # rest" using s by simp
        show ?thesis
        proof (cases "rest = []")
          case True
          then show ?thesis using stash s1 by (simp add: escape_def)
        next
          case r: False
          have "noMarker (afterIntroducer (s @ c2))" using p(6) by (simp only: splitSafe_def)
          then have m0: "noMarker (rest @ c2)"
            unfolding s1 by (simp add: startsWith_def escape_def)
          have nm: "\<not> contains (toUpper rest) ''2K''" "\<not> contains (toUpper rest) ''2J''"
            "\<not> contains (toUpper (rest @ c2)) ''2K''" "\<not> contains (toUpper (rest @ c2)) ''2J''"
            using m0 noMarker_prefix [OF m0] by (simp_all add: noMarker_def)
          have k: "startsWith (rest @ c2) [eraseToEol] = startsWith rest [eraseToEol]"
            using r by (intro startsWith_append) (cases rest, simp_all)
          obtain numbers pend s2 where sc: "scanNumbers [] [] escape rest = (numbers, pend, s2)"
            by (cases "scanNumbers [] [] escape rest") auto
          obtain d where d: "rest = d @ s2" using scanNumbers_suffix [OF sc] by blast
          have l2: "length (drop 1 s2) < length s" "length (drop 1 rest) < length s"
            using d r by (simp_all add: s1)
          have z: "Suc 0 - length rest = 0" using r by (cases rest) simp_all
          have sf2: "splitSafe (drop 1 s2) c2" "splitSafe (drop 1 rest) c2"
            using splitSafe_drop [OF splitSafe_suffix [of d s2 c2], of 1]
              splitSafe_drop [OF sf(1), of 1] sf(1) d by simp_all
          show ?thesis
          proof (cases "startsWith rest [eraseToEol]")
            case True
            have c1: "run base Inner h cf out (drop 1 rest) = Inr (out1, h1, w1)"
              using p(1,2) True nm unfolding s1 run_Inner_csi [OF r]
              by (simp add: handler_pending_reset)
            have "run base Inner h cf out (s @ c2) = run base Inner h cf out (drop 1 rest @ c2)"
              using True nm k r p(2) unfolding s1 append_Cons
              by (subst run_Inner_csi) (simp_all add: handler_pending_reset z)
            moreover have "run base Inner h cf out (drop 1 rest @ c2) = ?R"
              using p(2,4,5) nw l2 sf2 by (intro IH [OF c1]) simp_all
            ultimately show ?thesis by simp
          next
            case nk: False
            show ?thesis
            proof (cases "s2 = []")
              case True
              then have "pend = escape @ rest" using scanNumbers_all sc by blast
              then have q: "out1 = out" "h1 = h\<lparr>m_pendingText := s\<rparr>"
                using p(1,2) nk nm sc True unfolding s1 run_Inner_csi [OF r]
                by (simp_all add: escape_def)
              have f: "(if m_previousFormatClosed h1 then base else m_previousFormat h1) = cf"
                "h1\<lparr>m_pendingText := []\<rparr> = h" "m_pendingText h1 = s"
                using q p(2,4) by (simp_all add: handler_pending_reset)
              have "run base Outer h cf out (s @ c2) = run base Inner h cf out (s @ c2)"
                unfolding s0 using run_Outer_ESC [OF p(2) nw] by simp
              then show ?thesis by (simp only: f) (simp add: q)
            next
              case n2: False
              have sc2: "scanNumbers [] [] escape (rest @ c2) = (numbers, pend, s2 @ c2)"
                using sc n2 by (rule scanNumbers_append)
              have m: "startsWith (s2 @ c2) [colorTerminator] = startsWith s2 [colorTerminator]"
                using n2 by (intro startsWith_append) (cases s2, simp_all)
              have l3: "Suc 0 - length s2 = 0" using n2 by (cases s2) simp_all
              show ?thesis
              proof (cases "startsWith s2 [colorTerminator]")
                case nt: False
                have c1: "run base Outer h cf out (drop 1 s2) = Inr (out1, h1, w1)"
                  using p(1,2) nk nm sc n2 nt unfolding s1 run_Inner_csi [OF r]
                  by (simp add: handler_pending_reset)
                have "run base Inner h cf out (s @ c2) = run base Outer h cf out (drop 1 s2 @ c2)"
                  using nk nm k r p(2) sc2 n2 m nt unfolding s1 append_Cons
                  by (subst run_Inner_csi) (simp_all add: handler_pending_reset l3)
                moreover have "run base Outer h cf out (drop 1 s2 @ c2) = ?R"
                  using p(2,4,5) l2 sf2 by (intro IH [OF c1]) simp_all
                ultimately show ?thesis by simp
              next
                case t: True
                show ?thesis
                proof (cases "applySgr base numbers (h, cf)")
                  case (Inl err)
                  then show ?thesis
                    using p(1,2) nk nm sc n2 t unfolding s1 run_Inner_csi [OF r]
                    by (simp add: handler_pending_reset)
                next
                  case (Inr x)
                  obtain h3 cf3 where a: "applySgr base numbers (h, cf) = Inr (h3, cf3)"
                    using Inr by (cases x) auto
                  have c1: "run base Inner h3 cf3 out (drop 1 s2) = Inr (out1, h1, w1)"
                    using p(1,2) nk nm sc n2 t a unfolding s1 run_Inner_csi [OF r]
                    by (simp add: handler_pending_reset)
                  have "run base Inner h cf out (s @ c2) =
                      run base Inner h3 cf3 out (drop 1 s2 @ c2)"
                    using nk nm k r p(2) sc2 n2 m t a unfolding s1 append_Cons
                    by (subst run_Inner_csi) (simp_all add: handler_pending_reset l3)
                  moreover have "run base Inner h3 cf3 out (drop 1 s2 @ c2) = ?R"
                    using applySgr_pending [OF a] applySgr_waiting [OF a]
                      applySgr_alternate [OF a] applySgr_format [OF a p(4)] p(2,5) nw l2 sf2
                    by (intro IH [OF c1]) simp_all
                  ultimately show ?thesis by simp
                qed
              qed
            qed
          qed
        qed
      qed
    qed
  qed
qed

lemma noMarker_afterIntroducer_drop:
  "noMarker (afterIntroducer s) \<Longrightarrow> noMarker (afterIntroducer (drop n s))"
  using noMarker_afterIntroducer_suffix [of "take n s" "drop n s"] by simp

lemma noMarker_afterIntroducer_suffix2:
  "suffix s' s \<Longrightarrow> noMarker (afterIntroducer s) \<Longrightarrow> noMarker (afterIntroducer s')"
  using noMarker_afterIntroducer_suffix by (auto simp: suffix_def)

lemma run_no_command:
  "run base pl h cf out s = Inr (out', h', w) \<Longrightarrow> noMarker (afterIntroducer s) \<Longrightarrow> w = []"
proof (induction pl h cf out s rule: run_loop_induct)
  case (Outer h cf out s)
  show ?case
    using Outer.prems
    apply (subst (asm) run.simps(1))
    apply (auto simp: Let_def split: if_splits option.splits dest!: Outer.IH[rotated]
        intro: noMarker_afterIntroducer_drop)
    done
next
  case (Scan h cf out s)
  have IH: "\<And>out2 s'. run base Inner h cf out2 s' = Inr (out', h', w) \<Longrightarrow>
      s' \<noteq> [] \<Longrightarrow> hd s' = ESC \<Longrightarrow> length s' \<le> length s \<Longrightarrow>
      noMarker (afterIntroducer s') \<Longrightarrow> w = []"
    using Scan.IH by blast
  show ?case
    using Scan.prems
    apply (subst (asm) run.simps(2))
    apply (simp only: Let_def split: if_splits option.splits)
       apply (auto dest!: IH intro: noMarker_afterIntroducer_drop)
    done
next
  case (Inner h cf out s)
  show ?case
  proof (cases "s = [] \<or> hd s \<noteq> ESC")
    case True
    then have "run base Outer h cf out s = Inr (out', h', w)"
      using Inner.prems(1) by (subst (asm) run.simps(3)) simp
    then show ?thesis using Inner.IH(1) [OF True] Inner.prems(2) by blast
  next
    case False
    then have ne: "s \<noteq> []" "hd s = ESC" by simp_all
    have IHa: "\<And>pl' h2 cf2 out2 s'.
        run base pl' h2 cf2 out2 s' = Inr (out', h', w) \<Longrightarrow> suffix s' s \<Longrightarrow>
        length s' < length s \<Longrightarrow> w = []"
      using Inner.IH(2) [OF ne] noMarker_afterIntroducer_suffix2 [OF _ Inner.prems(2)] by blast
    have nm: "startsWith s escape \<Longrightarrow> \<not> contains (toUpper (drop (length escape) s)) ''2K''
        \<and> \<not> contains (toUpper (drop (length escape) s)) ''2J''"
      using Inner.prems(2) ne by (cases s) (auto simp: noMarker_def)
    show ?thesis
      using Inner.prems(1) ne nm
      apply (subst (asm) run.simps(3))
      apply (simp only: Let_def list_case2 split: if_splits prod.splits sum.splits)
      apply (auto dest!: IHa simp: suffix_drop
          intro: scanNumbers_shorter drop_escape_shorter scan_suffix)
      done
  qed
qed

lemma parseText_FT:
  "parseText h (FT t base) =
     run base Outer (h\<lparr>m_pendingText := []\<rparr>)
       (if m_previousFormatClosed h then base else m_previousFormat h) []
       (m_pendingText h @ t)"
  by (simp add: parseText_run FT_def)

text \<open>
  C2. For an input with an escape sequence and a split offset inside that sequence,
  feeding the two chunks in order gives, with the two lists of events joined, the same
  events and the same final handler state as feeding the whole input in one call.

  This fails in three ways.
  \<^item> The erase markers are searched in the whole rest of the buffer. Fed whole,
    \<^verbatim>\<open>ESC[31mA ESC[2K\<close> is cut at the first \<^verbatim>\<open>ESC [\<close>, returns no run and leaves the
    format scope closed; split after the second \<^verbatim>\<open>ESC [\<close>, the first chunk returns the
    red run \<^verbatim>\<open>A\<close> and opens the red format scope.
  \<^item> The erase acts on the text edit during the call, before the caller inserts the runs
    that the call returns. Fed whole, \<^verbatim>\<open>abc ESC[2K\<close> erases the line and then gives
    \<^verbatim>\<open>abc\<close>; split after \<^verbatim>\<open>ESC [\<close>, \<^verbatim>\<open>abc\<close> is inserted by the first call and
    the line erased by the second.
  \<^item> The search for a string terminator takes the terminator \<^verbatim>\<open>ESC\<close> backslash
    anywhere in the buffer before it looks for the bell. Fed whole, the text
    \<^verbatim>\<open>ESC ] a BEL b ESC[1m\<close> followed by \<^verbatim>\<open>ESC\<close> backslash and \<^verbatim>\<open>c\<close> is dropped up to
    the backslash and gives the plain run \<^verbatim>\<open>c\<close>; split after \<^verbatim>\<open>ESC [\<close>, the first
    chunk ends the string at the bell and gives \<^verbatim>\<open>b\<close>, the second gives a bold
    \<^verbatim>\<open>c\<close>.
\<close>

theorem split_after_erase_marker_counterexample:
  "parseText (initialHandler defaultFormat)
      (FT ((escape @ ''31mA'' @ escape) @ ''2K'') defaultFormat) =
     Inr ([], (initialHandler defaultFormat)\<lparr>m_pendingText := escape\<rparr>, [ClearCurrentLine])
   \<and> parseText (initialHandler defaultFormat) (FT (escape @ ''31mA'' @ escape) defaultFormat) =
     Inr ([FT ''A'' (defaultFormat\<lparr>foreground := Some (Rgb 170 0 0)\<rparr>)],
          (initialHandler defaultFormat)
            \<lparr>m_pendingText := escape,
             m_previousFormat := defaultFormat\<lparr>foreground := Some (Rgb 170 0 0)\<rparr>,
             m_previousFormatClosed := False\<rparr>, [])
   \<and> parseText
       ((initialHandler defaultFormat)
            \<lparr>m_pendingText := escape,
             m_previousFormat := defaultFormat\<lparr>foreground := Some (Rgb 170 0 0)\<rparr>,
             m_previousFormatClosed := False\<rparr>)
       (FT ''2K'' defaultFormat) =
     Inr ([],
          (initialHandler defaultFormat)
            \<lparr>m_pendingText := escape,
             m_previousFormat := defaultFormat\<lparr>foreground := Some (Rgb 170 0 0)\<rparr>,
             m_previousFormatClosed := False\<rparr>, [ClearCurrentLine])
   \<and> feedEvents ([], (initialHandler defaultFormat)\<lparr>m_pendingText := escape\<rparr>,
         [ClearCurrentLine]) = [Command ClearCurrentLine]
   \<and> feedEvents ([FT ''A'' (defaultFormat\<lparr>foreground := Some (Rgb 170 0 0)\<rparr>)],
          (initialHandler defaultFormat)
            \<lparr>m_pendingText := escape,
             m_previousFormat := defaultFormat\<lparr>foreground := Some (Rgb 170 0 0)\<rparr>,
             m_previousFormatClosed := False\<rparr>, [])
       @ feedEvents ([],
          (initialHandler defaultFormat)
            \<lparr>m_pendingText := escape,
             m_previousFormat := defaultFormat\<lparr>foreground := Some (Rgb 170 0 0)\<rparr>,
             m_previousFormatClosed := False\<rparr>, [ClearCurrentLine])
       = [TextRun (FT ''A'' (defaultFormat\<lparr>foreground := Some (Rgb 170 0 0)\<rparr>)),
          Command ClearCurrentLine]
   \<and> m_previousFormatClosed ((initialHandler defaultFormat)\<lparr>m_pendingText := escape\<rparr>)
   \<and> \<not> m_previousFormatClosed
         ((initialHandler defaultFormat)
            \<lparr>m_pendingText := escape,
             m_previousFormat := defaultFormat\<lparr>foreground := Some (Rgb 170 0 0)\<rparr>,
             m_previousFormatClosed := False\<rparr>)
   \<and> parseText (initialHandler defaultFormat) (FT (''abc'' @ escape @ ''2K'') defaultFormat) =
     Inr ([FT ''abc'' defaultFormat], (initialHandler defaultFormat)\<lparr>m_pendingText := escape\<rparr>,
          [ClearCurrentLine])
   \<and> parseText (initialHandler defaultFormat) (FT (''abc'' @ escape) defaultFormat) =
     Inr ([FT ''abc'' defaultFormat], (initialHandler defaultFormat)\<lparr>m_pendingText := escape\<rparr>,
          [])
   \<and> parseText ((initialHandler defaultFormat)\<lparr>m_pendingText := escape\<rparr>)
        (FT ''2K'' defaultFormat) =
     Inr ([], (initialHandler defaultFormat)\<lparr>m_pendingText := escape\<rparr>, [ClearCurrentLine])
   \<and> feedEvents ([FT ''abc'' defaultFormat],
          (initialHandler defaultFormat)\<lparr>m_pendingText := escape\<rparr>, [ClearCurrentLine])
       = [Command ClearCurrentLine, TextRun (FT ''abc'' defaultFormat)]
   \<and> feedEvents ([FT ''abc'' defaultFormat],
          (initialHandler defaultFormat)\<lparr>m_pendingText := escape\<rparr>, [])
       @ feedEvents ([], (initialHandler defaultFormat)\<lparr>m_pendingText := escape\<rparr>,
           [ClearCurrentLine])
       = [TextRun (FT ''abc'' defaultFormat), Command ClearCurrentLine]
   \<and> parseText (initialHandler defaultFormat)
        (FT (([ESC, CHR '']''] @ ''a'' @ [BEL] @ ''b'' @ escape)
             @ (''1m'' @ [ESC, backslash] @ ''c'')) defaultFormat) =
     Inr ([FT ''c'' defaultFormat], initialHandler defaultFormat, [])
   \<and> parseText (initialHandler defaultFormat)
        (FT ([ESC, CHR '']''] @ ''a'' @ [BEL] @ ''b'' @ escape) defaultFormat) =
     Inr ([FT ''b'' defaultFormat], (initialHandler defaultFormat)\<lparr>m_pendingText := escape\<rparr>,
          [])
   \<and> parseText ((initialHandler defaultFormat)\<lparr>m_pendingText := escape\<rparr>)
        (FT (''1m'' @ [ESC, backslash] @ ''c'') defaultFormat) =
     Inr ([FT ''c'' (defaultFormat\<lparr>bold := True\<rparr>)],
          (initialHandler defaultFormat)
            \<lparr>m_previousFormat := defaultFormat\<lparr>bold := True\<rparr>,
             m_previousFormatClosed := False\<rparr>, [])"
  by (simp add: parse_defs bit_0 feedEvents_def)

text \<open>
  C2, amended. A first chunk is fed to a handler whose alternate terminator is empty or
  the bell (the two values the code stores), and the call ends inside a sequence: it
  returns with pending text, or waiting for a string terminator. If no erase marker
  follows the first \<^verbatim>\<open>ESC [\<close> of the whole text (pending text, first chunk, second chunk),
  and the first chunk with the pending text holds no bell or the whole text no
  \<^verbatim>\<open>ESC\<close> backslash, then no call sends a command to the text edit, the call on the
  whole text returns the runs of the first call followed by the runs of the second and
  ends in the handler state of the second call, so the events of the two calls, joined,
  are the events of the one call; and if the second call fails, so does the call on the
  whole text.

  For a text that starts with the sequence that is split (a handler with no pending text
  that does not wait for a terminator, and a first chunk \<^verbatim>\<open>ESC\<close>, \<^verbatim>\<open>ESC [\<close> or
  \<^verbatim>\<open>ESC [\<close> with the beginning of its numeric parameters), the first call returns nothing
  and keeps the chunk as pending text, and the second call returns what the call on the
  whole text returns, erase commands included.
\<close>

theorem split_inside_sequence_resumes:
  "(parseText h (FT c1 base) = Inr (out1, h1, w1)
      \<and> (m_pendingText h1 \<noteq> [] \<or> m_waitingForTerminator h1)
      \<and> (m_alternateTerminator h = [] \<or> m_alternateTerminator h = [BEL])
      \<and> splitSafe (m_pendingText h @ c1) c2 \<longrightarrow>
        w1 = []
        \<and> (parseText h1 (FT c2 base) = Inl e \<longrightarrow> parseText h (FT (c1 @ c2) base) = Inl e)
        \<and> (parseText h1 (FT c2 base) = Inr (out2, h2, w2) \<longrightarrow>
             w2 = [] \<and> parseText h (FT (c1 @ c2) base) = Inr (out1 @ out2, h2, [])
             \<and> feedEvents (out1 @ out2, h2, [])
                 = feedEvents (out1, h1, w1) @ feedEvents (out2, h2, w2)))
   \<and> (partialSequence q \<and> m_pendingText h = [] \<and> \<not> m_waitingForTerminator h \<longrightarrow>
        parseText h (FT q base) = Inr ([], h\<lparr>m_pendingText := q\<rparr>, [])
        \<and> parseText (h\<lparr>m_pendingText := q\<rparr>) (FT c2 base) = parseText h (FT (q @ c2) base))"
proof -
  let ?cf = "if m_previousFormatClosed h then base else m_previousFormat h"
  have i: "parseText h (FT c1 base) = Inr (out1, h1, w1)
      \<and> (m_pendingText h1 \<noteq> [] \<or> m_waitingForTerminator h1)
      \<and> (m_alternateTerminator h = [] \<or> m_alternateTerminator h = [BEL])
      \<and> splitSafe (m_pendingText h @ c1) c2 \<longrightarrow>
        w1 = []
        \<and> (parseText h1 (FT c2 base) = Inl e \<longrightarrow> parseText h (FT (c1 @ c2) base) = Inl e)
        \<and> (parseText h1 (FT c2 base) = Inr (out2, h2, w2) \<longrightarrow>
             w2 = [] \<and> parseText h (FT (c1 @ c2) base) = Inr (out1 @ out2, h2, [])
             \<and> feedEvents (out1 @ out2, h2, [])
                 = feedEvents (out1, h1, w1) @ feedEvents (out2, h2, w2))"
  proof
    assume a: "parseText h (FT c1 base) = Inr (out1, h1, w1)
      \<and> (m_pendingText h1 \<noteq> [] \<or> m_waitingForTerminator h1)
      \<and> (m_alternateTerminator h = [] \<or> m_alternateTerminator h = [BEL])
      \<and> splitSafe (m_pendingText h @ c1) c2"
    then have E: "m_pendingText h1 \<noteq> [] \<or> m_waitingForTerminator h1"
      and A: "m_alternateTerminator h = [] \<or> m_alternateTerminator h = [BEL]"
      and S: "splitSafe (m_pendingText h @ c1) c2" by simp_all
    have p1: "parseText h (FT c1 base) = Inr (out1, h1, w1)" using a by simp
    have r1: "run base Outer (h\<lparr>m_pendingText := []\<rparr>) ?cf [] (m_pendingText h @ c1)
        = Inr (out1, h1, w1)"
      using p1 by (simp only: parseText_FT)
    have nm: "noMarker (afterIntroducer ((m_pendingText h @ c1) @ c2))"
      using S by (simp add: splitSafe_def)
    have w1: "w1 = []"
      using r1 noMarker_afterIntroducer_prefix [OF nm] by (rule run_no_command)
    have x: "run base Outer (h\<lparr>m_pendingText := []\<rparr>) ?cf [] ((m_pendingText h @ c1) @ c2) =
        run base Outer (h1\<lparr>m_pendingText := []\<rparr>)
          (if m_previousFormatClosed h1 then base else m_previousFormat h1) out1
          (m_pendingText h1 @ c2)"
      by (rule run_append [OF E r1]) (use A S in simp_all)
    have "run base Outer (h1\<lparr>m_pendingText := []\<rparr>)
          (if m_previousFormatClosed h1 then base else m_previousFormat h1) (out1 @ [])
          (m_pendingText h1 @ c2) =
        prependRuns out1 (run base Outer (h1\<lparr>m_pendingText := []\<rparr>)
          (if m_previousFormatClosed h1 then base else m_previousFormat h1) []
          (m_pendingText h1 @ c2))"
      by (rule run_prepend)
    then have y: "run base Outer (h1\<lparr>m_pendingText := []\<rparr>)
          (if m_previousFormatClosed h1 then base else m_previousFormat h1) out1
          (m_pendingText h1 @ c2) =
        prependRuns out1 (parseText h1 (FT c2 base))"
      by (simp only: append_Nil2 parseText_FT)
    have whole: "parseText h (FT (c1 @ c2) base) =
        prependRuns out1 (parseText h1 (FT c2 base))"
      using x y by (simp only: parseText_FT [of h] append_assoc)
    have nc: "w' = []" if "parseText h (FT (c1 @ c2) base) = Inr (o', h', w')" for o' h' w'
    proof -
      have "run base Outer (h\<lparr>m_pendingText := []\<rparr>) ?cf [] ((m_pendingText h @ c1) @ c2)
          = Inr (o', h', w')"
        using that by (simp only: parseText_FT append_assoc)
      then show ?thesis using nm by (rule run_no_command)
    qed
    have e: "parseText h1 (FT c2 base) = Inl e \<longrightarrow> parseText h (FT (c1 @ c2) base) = Inl e"
      using whole by simp
    have s: "parseText h1 (FT c2 base) = Inr (out2, h2, w2) \<longrightarrow>
             w2 = [] \<and> parseText h (FT (c1 @ c2) base) = Inr (out1 @ out2, h2, [])
             \<and> feedEvents (out1 @ out2, h2, [])
                 = feedEvents (out1, h1, w1) @ feedEvents (out2, h2, w2)"
    proof
      assume b: "parseText h1 (FT c2 base) = Inr (out2, h2, w2)"
      have c: "parseText h (FT (c1 @ c2) base) =
          Inr (if w2 = [ClearScreen] then out2 else out1 @ out2, h2, w2)"
        using whole b by (simp add: prependRuns_def)
      have w2: "w2 = []" using nc [OF c] .
      show "w2 = [] \<and> parseText h (FT (c1 @ c2) base) = Inr (out1 @ out2, h2, [])
             \<and> feedEvents (out1 @ out2, h2, [])
                 = feedEvents (out1, h1, w1) @ feedEvents (out2, h2, w2)"
        using c w2 w1 by (simp add: feedEvents_def)
    qed
    from w1 e s show "w1 = []
        \<and> (parseText h1 (FT c2 base) = Inl e \<longrightarrow> parseText h (FT (c1 @ c2) base) = Inl e)
        \<and> (parseText h1 (FT c2 base) = Inr (out2, h2, w2) \<longrightarrow>
             w2 = [] \<and> parseText h (FT (c1 @ c2) base) = Inr (out1 @ out2, h2, [])
             \<and> feedEvents (out1 @ out2, h2, [])
                 = feedEvents (out1, h1, w1) @ feedEvents (out2, h2, w2))"
      by blast
  qed
  have ii: "partialSequence q \<and> m_pendingText h = [] \<and> \<not> m_waitingForTerminator h \<longrightarrow>
        parseText h (FT q base) = Inr ([], h\<lparr>m_pendingText := q\<rparr>, [])
        \<and> parseText (h\<lparr>m_pendingText := q\<rparr>) (FT c2 base) = parseText h (FT (q @ c2) base)"
  proof
    assume a: "partialSequence q \<and> m_pendingText h = [] \<and> \<not> m_waitingForTerminator h"
    then obtain r where q: "q = ESC # r" using partialSequence_ESC by blast
    have 1: "parseText h (FT q base) = run base Inner h ?cf [] q"
      using parseText_reaches_Inner [of "[]" h r base] a q by simp
    have 2: "parseText h (FT q base) = Inr ([], h\<lparr>m_pendingText := q\<rparr>, [])"
      unfolding 1 using a by (intro run_Inner_partial) simp_all
    have 3: "parseText (h\<lparr>m_pendingText := q\<rparr>) (FT c2 base) = parseText h (FT (q @ c2) base)"
      using a by (simp add: parseText_FT)
    from 2 3 show "parseText h (FT q base) = Inr ([], h\<lparr>m_pendingText := q\<rparr>, [])
        \<and> parseText (h\<lparr>m_pendingText := q\<rparr>) (FT c2 base) = parseText h (FT (q @ c2) base)"
      by simp
  qed
  from i ii show ?thesis by blast
qed

theorem split_inside_sequence_resumes_witness:
  "parseText (initialHandler defaultFormat) (FT (escape @ ''1mA'' @ escape @ ''3'') defaultFormat) =
     Inr ([FT ''A'' (defaultFormat\<lparr>bold := True\<rparr>)],
          (initialHandler defaultFormat)
            \<lparr>m_pendingText := escape @ ''3'',
             m_previousFormat := defaultFormat\<lparr>bold := True\<rparr>,
             m_previousFormatClosed := False\<rparr>, [])
   \<and> m_pendingText ((initialHandler defaultFormat)
            \<lparr>m_pendingText := escape @ ''3'',
             m_previousFormat := defaultFormat\<lparr>bold := True\<rparr>,
             m_previousFormatClosed := False\<rparr>) \<noteq> []
   \<and> m_alternateTerminator (initialHandler defaultFormat) = []
   \<and> splitSafe (m_pendingText (initialHandler defaultFormat) @ escape @ ''1mA'' @ escape @ ''3'')
        ''1mB''
   \<and> parseText ((initialHandler defaultFormat)
            \<lparr>m_pendingText := escape @ ''3'',
             m_previousFormat := defaultFormat\<lparr>bold := True\<rparr>,
             m_previousFormatClosed := False\<rparr>) (FT ''1mB'' defaultFormat) =
     Inr ([FT ''B'' (defaultFormat\<lparr>foreground := Some (Rgb 170 0 0), bold := True\<rparr>)],
          (initialHandler defaultFormat)
            \<lparr>m_previousFormat := defaultFormat\<lparr>foreground := Some (Rgb 170 0 0), bold := True\<rparr>,
             m_previousFormatClosed := False\<rparr>, [])
   \<and> parseText (initialHandler defaultFormat)
        (FT ((escape @ ''1mA'' @ escape @ ''3'') @ ''1mB'') defaultFormat) =
     Inr ([FT ''A'' (defaultFormat\<lparr>bold := True\<rparr>)]
          @ [FT ''B'' (defaultFormat\<lparr>foreground := Some (Rgb 170 0 0), bold := True\<rparr>)],
          (initialHandler defaultFormat)
            \<lparr>m_previousFormat := defaultFormat\<lparr>foreground := Some (Rgb 170 0 0), bold := True\<rparr>,
             m_previousFormatClosed := False\<rparr>, [])
   \<and> partialSequence (escape @ ''2'')
   \<and> m_pendingText (initialHandler defaultFormat) = []
   \<and> \<not> m_waitingForTerminator (initialHandler defaultFormat)
   \<and> parseText (initialHandler defaultFormat) (FT (escape @ ''2'') defaultFormat) =
       Inr ([], (initialHandler defaultFormat)\<lparr>m_pendingText := escape @ ''2''\<rparr>, [])
   \<and> parseText ((initialHandler defaultFormat)\<lparr>m_pendingText := escape @ ''2''\<rparr>)
        (FT ''K'' defaultFormat) =
       parseText (initialHandler defaultFormat) (FT ((escape @ ''2'') @ ''K'') defaultFormat)
   \<and> parseText (initialHandler defaultFormat) (FT ((escape @ ''2'') @ ''K'') defaultFormat) =
       Inr ([], (initialHandler defaultFormat)\<lparr>m_pendingText := escape\<rparr>, [ClearCurrentLine])"
proof -
  let ?h1 = "(initialHandler defaultFormat)
            \<lparr>m_pendingText := escape @ ''3'',
             m_previousFormat := defaultFormat\<lparr>bold := True\<rparr>,
             m_previousFormatClosed := False\<rparr>"
  let ?h2 = "(initialHandler defaultFormat)
            \<lparr>m_previousFormat := defaultFormat\<lparr>foreground := Some (Rgb 170 0 0), bold := True\<rparr>,
             m_previousFormatClosed := False\<rparr>"
  have a: "parseText (initialHandler defaultFormat)
      (FT (escape @ ''1mA'' @ escape @ ''3'') defaultFormat) =
     Inr ([FT ''A'' (defaultFormat\<lparr>bold := True\<rparr>)], ?h1, [])"
    by (simp add: parse_defs)
  have b: "parseText ?h1 (FT ''1mB'' defaultFormat) =
     Inr ([FT ''B'' (defaultFormat\<lparr>foreground := Some (Rgb 170 0 0), bold := True\<rparr>)], ?h2, [])"
    by (simp add: parse_defs bit_0)
  have c: "splitSafe (m_pendingText (initialHandler defaultFormat)
      @ escape @ ''1mA'' @ escape @ ''3'') ''1mB''"
    by (simp add: splitSafe_def noMarker_def parse_defs)
  have d: "m_pendingText ?h1 \<noteq> []" "m_alternateTerminator (initialHandler defaultFormat) = []"
      "m_pendingText (initialHandler defaultFormat) = []"
      "\<not> m_waitingForTerminator (initialHandler defaultFormat)"
    by (simp_all add: initialHandler_def escape_def)
  have p: "partialSequence (escape @ ''2'')"
    by (simp add: partialSequence_def startsWith_def escape_def isDigit_def)
  have k: "parseText (initialHandler defaultFormat) (FT ((escape @ ''2'') @ ''K'') defaultFormat) =
       Inr ([], (initialHandler defaultFormat)\<lparr>m_pendingText := escape\<rparr>, [ClearCurrentLine])"
    by (simp add: parse_defs)
  note w1 = split_inside_sequence_resumes [where h = "initialHandler defaultFormat"
      and ?c1.0 = "escape @ ''1mA'' @ escape @ ''3''" and base = defaultFormat
      and ?out1.0 = "[FT ''A'' (defaultFormat\<lparr>bold := True\<rparr>)]" and ?h1.0 = ?h1
      and ?w1.0 = "[]" and ?c2.0 = "''1mB''"
      and ?out2.0 = "[FT ''B'' (defaultFormat\<lparr>foreground := Some (Rgb 170 0 0), bold := True\<rparr>)]"
      and ?h2.0 = ?h2 and ?w2.0 = "[]" and q = "escape @ ''2''"]
  note w2 = split_inside_sequence_resumes [where h = "initialHandler defaultFormat"
      and base = defaultFormat and ?c2.0 = "''K''" and q = "escape @ ''2''"]
  have x: "parseText (initialHandler defaultFormat)
        (FT ((escape @ ''1mA'' @ escape @ ''3'') @ ''1mB'') defaultFormat) =
     Inr ([FT ''A'' (defaultFormat\<lparr>bold := True\<rparr>)]
          @ [FT ''B'' (defaultFormat\<lparr>foreground := Some (Rgb 170 0 0), bold := True\<rparr>)],
          ?h2, [])"
    using w1 a b c d by blast
  have y: "parseText (initialHandler defaultFormat) (FT (escape @ ''2'') defaultFormat) =
       Inr ([], (initialHandler defaultFormat)\<lparr>m_pendingText := escape @ ''2''\<rparr>, [])
   \<and> parseText ((initialHandler defaultFormat)\<lparr>m_pendingText := escape @ ''2''\<rparr>)
        (FT ''K'' defaultFormat) =
       parseText (initialHandler defaultFormat) (FT ((escape @ ''2'') @ ''K'') defaultFormat)"
    using w2 p d by blast
  from a b c d p k x y show ?thesis by blast
qed

end
